theory Spec2Isabelle
  imports Complex_Main
begin

section \<open>Floating-point values\<close>

text \<open>
  A float is modelled as a real number or one of the three special values, with the
  comparison and the product of IEEE arithmetic: every comparison with nan is false, and
  zero times infinity is nan.
\<close>

datatype fnum = Fin real | PosInf | NegInf | NaN

fun isfinite :: "fnum \<Rightarrow> bool" where
  "isfinite (Fin x) = True"
| "isfinite x = False"

fun fl_less :: "fnum \<Rightarrow> fnum \<Rightarrow> bool" where
  "fl_less (Fin a) (Fin b) = (a < b)"
| "fl_less (Fin a) PosInf = True"
| "fl_less NegInf (Fin b) = True"
| "fl_less NegInf PosInf = True"
| "fl_less x y = False"

fun fl_sign :: "fnum \<Rightarrow> int" where
  "fl_sign (Fin a) = (if a < 0 then -1 else if a = 0 then 0 else 1)"
| "fl_sign PosInf = 1"
| "fl_sign NegInf = -1"
| "fl_sign NaN = 0"

fun fl_mult :: "fnum \<Rightarrow> fnum \<Rightarrow> fnum" where
  "fl_mult (Fin a) (Fin b) = Fin (a * b)"
| "fl_mult NaN y = NaN"
| "fl_mult x NaN = NaN"
| "fl_mult x y =
     (if fl_sign x * fl_sign y = 0 then NaN
      else if 0 < fl_sign x * fl_sign y then PosInf else NegInf)"

text \<open>
  The double that an arithmetic operation returns when its exact result is \<open>x\<close>. The
  largest double is \<open>2^1024 - 2^971\<close>; under round-to-nearest a result of magnitude
  \<open>2^1024 - 2^970\<close> or more (the largest double plus half a unit in its last place)
  becomes infinity. Rounding of the results within the range is not modelled.
\<close>

definition overflow_threshold :: real where
  "overflow_threshold = 2 ^ 1024 - 2 ^ 970"

definition fl_round :: "real \<Rightarrow> fnum" where
  "fl_round x =
     (if overflow_threshold \<le> x then PosInf
      else if x \<le> - overflow_threshold then NegInf
      else Fin x)"

text \<open>The product of a float with a finite float, \<open>c * x\<close>.\<close>

definition fl_times :: "fnum \<Rightarrow> real \<Rightarrow> fnum" where
  "fl_times c x = (case c of Fin a \<Rightarrow> fl_round (a * x) | _ \<Rightarrow> fl_mult c (Fin x))"

section \<open>Empirical interpolation (pymor/algorithms/ei.py)\<close>

text \<open>
  Scalars are modelled as real numbers with exact arithmetic: the statements about the
  structure of the algorithm are about the algorithm, not about rounding. The one
  statement of the code whose floating-point result can be far from the exact one, the
  scaling \<open>new_vec *= 1 / new_dof_value\<close>, is modelled a second time with the overflow
  of IEEE doubles (\<open>scaled_new_vec\<close> below). A vector is the list of its DOF values and a
  VectorArray the list of its vectors. The exceptions the code can meet are values of
  \<open>py_error\<close>.
\<close>

datatype py_error = ValueError | IndexError | LinAlgError

type_synonym vec = "real list"
type_synonym vector_array = "vec list"

subsection \<open>NumPy and VectorArray operations used by the algorithms\<close>

text \<open>
  Modelled from the spec: the VectorArray operations \<open>amax\<close>, \<open>scal\<close>, \<open>axpy\<close>, \<open>dofs\<close>
  and \<open>l2_norm\<close>, whose implementation lives in another package (pymor.vectorarrays); they
  are the operations on the rows of a dense array that the data model names.

  \<open>np.argmax\<close> scans from the left and keeps the first index of the largest entry;
  on an empty array it raises ValueError.
\<close>

fun argmax_scan :: "real list \<Rightarrow> nat \<Rightarrow> nat \<Rightarrow> real \<Rightarrow> nat" where
  "argmax_scan [] i best_i best_v = best_i"
| "argmax_scan (x # xs) i best_i best_v =
     (if best_v < x then argmax_scan xs (Suc i) i x
      else argmax_scan xs (Suc i) best_i best_v)"

definition np_argmax :: "real list \<Rightarrow> py_error + nat" where
  "np_argmax xs = (case xs of [] \<Rightarrow> Inl ValueError | x # xs' \<Rightarrow> Inr (argmax_scan xs' 1 0 x))"

text \<open>\<open>v.amax()[0][0]\<close>: the first index of the entry of largest magnitude.\<close>

definition amax :: "vec \<Rightarrow> py_error + nat" where
  "amax v = np_argmax (map abs v)"

text \<open>\<open>v *= a\<close>.\<close>

definition scal :: "real \<Rightarrow> vec \<Rightarrow> vec" where
  "scal a v = map (\<lambda>x. a * x) v"

text \<open>\<open>y.axpy(a, x)\<close>: \<open>y += a * x\<close> for one vector.\<close>

definition axpy1 :: "real \<Rightarrow> vec \<Rightarrow> vec \<Rightarrow> vec" where
  "axpy1 a x y = map2 (\<lambda>yi xi. yi + a * xi) y x"

text \<open>
  The update of ei-greedy, \<open>U.axpy(-U.dofs([new_dof])[:, 0], new_vec)\<close>: every vector of
  \<open>U\<close> loses its own value at \<open>new_dof\<close> times \<open>new_vec\<close>.
\<close>

definition deflate :: "nat \<Rightarrow> vec \<Rightarrow> vector_array \<Rightarrow> vector_array" where
  "deflate new_dof new_vec U = map (\<lambda>u. axpy1 (- (u ! new_dof)) new_vec u) U"

text \<open>The Euclidean norm of every vector, \<open>U.l2_norm()\<close>.\<close>

definition l2_norm1 :: "vec \<Rightarrow> real" where
  "l2_norm1 u = sqrt (sum_list (map (\<lambda>x. x * x) u))"

text \<open>
  \<open>errs = ERR.l2_norm() if error_norm is None else error_norm(ERR)\<close>; a caller's
  \<open>error_norm\<close> is a norm functional, applied to each vector.
\<close>

definition error_norms :: "(vec \<Rightarrow> real) option \<Rightarrow> vector_array \<Rightarrow> real list" where
  "error_norms error_norm ERR =
     (case error_norm of None \<Rightarrow> map l2_norm1 ERR | Some f \<Rightarrow> map f ERR)"

text \<open>
  \<open>max_err / initial_max_err <= rtol\<close> on NumPy floats: a division by zero does not
  raise, it yields nan (0/0), inf or -inf, and only -inf is below a finite \<open>rtol\<close>.
\<close>

definition rel_err_le :: "real \<Rightarrow> real \<Rightarrow> real \<Rightarrow> bool" where
  "rel_err_le max_err initial_max_err rtol =
     (if initial_max_err = 0 then max_err < 0 else max_err / initial_max_err \<le> rtol)"

subsection \<open>The interpolation matrix and its triangularity errors\<close>

text \<open>
  \<open>collateral_basis.dofs(interpolation_dofs).T\<close>: row \<open>r\<close> holds the values of all
  basis vectors at the \<open>r\<close>-th DOF.
\<close>

definition interpolation_matrix_of :: "vector_array \<Rightarrow> nat list \<Rightarrow> real list list" where
  "interpolation_matrix_of collateral_basis dofs =
     map (\<lambda>d. map (\<lambda>b. b ! d) collateral_basis) dofs"

text \<open>
  \<open>np.abs(M - np.tril(M))\<close> keeps the magnitudes strictly above the diagonal; the
  \<open>d\<close>-th triangularity error is the largest entry of its leading \<open>d\<close> by \<open>d\<close> block.
\<close>

definition upper_abs :: "real list list \<Rightarrow> nat \<Rightarrow> nat \<Rightarrow> real" where
  "upper_abs M r c = (if r < c then \<bar>M ! r ! c\<bar> else 0)"

definition triangularity_errs_of :: "real list list \<Rightarrow> real list" where
  "triangularity_errs_of M =
     map (\<lambda>d. fold max (concat (map (\<lambda>r. map (\<lambda>c. upper_abs M r c) [0..<d]) [0..<d])) 0)
         [1..<Suc (length M)]"

subsection \<open>Sequential EI-Greedy\<close>

record ei_data =
  errors :: "real list"
  triangularity_errors :: "real list"

record ei_state =
  interpolation_dofs :: "nat list"
  collateral_basis :: vector_array
  max_errs :: "real list"
  ERR :: vector_array
  max_err_ind :: nat
  max_err :: real

record ei_params =
  error_norm :: "(vec \<Rightarrow> real) option"
  atol :: "real option"
  rtol :: "real option"
  max_interpolation_dofs :: "int option"

text \<open>The three stopping checks at the head of the main loop, in the order of the code.\<close>

definition stop_check :: "ei_params \<Rightarrow> real \<Rightarrow> ei_state \<Rightarrow> bool" where
  "stop_check p initial_max_err s =
     ((case max_interpolation_dofs p of None \<Rightarrow> False
        | Some m \<Rightarrow> m \<le> int (length (interpolation_dofs s)))
      \<or> (case atol p of None \<Rightarrow> False | Some a \<Rightarrow> max_err s \<le> a)
      \<or> (case rtol p of None \<Rightarrow> False | Some r \<Rightarrow> rel_err_le (max_err s) initial_max_err r))"

text \<open>
  What is left of a loop round after the stopping checks. \<open>Inr (Inl s)\<close> is a
  \<open>break\<close> with the state unchanged, \<open>Inr (Inr s')\<close> the state for the next round.
\<close>

definition greedy_step :: "ei_params \<Rightarrow> ei_state \<Rightarrow> py_error + (ei_state + ei_state)" where
  "greedy_step p s =
     (if length (ERR s) \<le> max_err_ind s then Inl IndexError
      else
        let new_vec = ERR s ! max_err_ind s in
        case amax new_vec of
          Inl e \<Rightarrow> Inl e
        | Inr new_dof \<Rightarrow>
            if new_dof \<in> set (interpolation_dofs s) then Inr (Inl s)
            else
              let new_dof_value = new_vec ! new_dof in
              if new_dof_value = 0 then Inr (Inl s)
              else
                let new_vec' = scal (1 / new_dof_value) new_vec;
                    U' = deflate new_dof new_vec' (ERR s);
                    errs = error_norms (error_norm p) U'
                in (case np_argmax errs of
                      Inl e \<Rightarrow> Inl e
                    | Inr i \<Rightarrow>
                        Inr (Inr \<lparr>interpolation_dofs = interpolation_dofs s @ [new_dof],
                                  collateral_basis = collateral_basis s @ [new_vec'],
                                  max_errs = max_errs s @ [max_err s],
                                  ERR = U',
                                  max_err_ind = i,
                                  max_err = errs ! i\<rparr>)))"

text \<open>
  The same scaling in double arithmetic, for a vector of finite entries (ei.py 126-131):
  the test \<open>new_dof_value == 0.\<close> (\<open>None\<close> is the \<open>break\<close>), the quotient
  \<open>1 / new_dof_value\<close>, which overflows to infinity when \<open>new_dof_value\<close> is small enough,
  and the product of every entry with it.
\<close>

definition scaled_new_vec :: "vec \<Rightarrow> nat \<Rightarrow> fnum list option" where
  "scaled_new_vec new_vec new_dof =
     (let new_dof_value = new_vec ! new_dof in
      if new_dof_value = 0 then None
      else Some (map (fl_times (fl_round (1 / new_dof_value))) new_vec))"

text \<open>
  Every accepted round selects a DOF below the dimension that was not selected before,
  which bounds the number of rounds.
\<close>

definition dim_bound :: "vector_array \<Rightarrow> nat" where
  "dim_bound U = Max (insert 0 (length ` set U))"

definition free_dofs :: "ei_state \<Rightarrow> nat" where
  "free_dofs s = card ({..<dim_bound (ERR s)} - set (interpolation_dofs s))"

text \<open>The main loop, \<open>while True\<close>, with its \<open>break\<close>s as results.\<close>

function ei_greedy_loop :: "ei_params \<Rightarrow> real \<Rightarrow> ei_state \<Rightarrow> py_error + ei_state" where
  "ei_greedy_loop p initial_max_err s =
     (if stop_check p initial_max_err s then Inr s
      else (case greedy_step p s of
              Inl e \<Rightarrow> Inl e
            | Inr (Inl s') \<Rightarrow> Inr s'
            | Inr (Inr s') \<Rightarrow> ei_greedy_loop p initial_max_err s'))"
  by pat_completeness auto

text \<open>The part of \<open>ei_greedy\<close> after the loop: the diagnostics and the returned triple.\<close>

definition ei_result :: "ei_state \<Rightarrow> nat list \<times> vector_array \<times> ei_data" where
  "ei_result s =
     (interpolation_dofs s, collateral_basis s,
      \<lparr>errors = max_errs s,
       triangularity_errors =
         triangularity_errs_of (interpolation_matrix_of (collateral_basis s) (interpolation_dofs s))\<rparr>)"

text \<open>
  \<open>ei_greedy\<close> with \<open>pool\<close> false: the norms and the first worst vector are
  computed before the loop, so \<open>np.argmax\<close> meets the norms of \<open>U\<close> itself first.
  The flag \<open>copy\<close> only decides whether the caller's array is overwritten; it does not
  change what is returned.
\<close>

definition ei_greedy :: "ei_params \<Rightarrow> vector_array \<Rightarrow> py_error + nat list \<times> vector_array \<times> ei_data" where
  "ei_greedy p U =
     (let errs = error_norms (error_norm p) U in
      case np_argmax errs of
        Inl e \<Rightarrow> Inl e
      | Inr i \<Rightarrow>
          (case ei_greedy_loop p (errs ! i)
                  \<lparr>interpolation_dofs = [], collateral_basis = [], max_errs = [],
                   ERR = U, max_err_ind = i, max_err = errs ! i\<rparr> of
             Inl e \<Rightarrow> Inl e
           | Inr s \<Rightarrow> Inr (ei_result s)))"

subsection \<open>Distributed EI-Greedy\<close>

text \<open>
  The dict \<open>data\<close> that each worker keeps: its shard of the array and the index of the
  worst vector of the shard (the norm functional is the one of \<open>ei_params\<close>). The
  distributed array \<open>U\<close> is the list of the workers' shards, in worker order.
\<close>

record worker_data =
  data_U :: vector_array
  data_max_err_ind :: nat

text \<open>
  Modelled from the spec: the worker pool, which lives in another package (pymor.parallel).
  \<open>pool.apply\<close> runs a function on every worker and returns the list of the results in
  worker order; a failure on any worker aborts the whole operation. \<open>pool.apply_only\<close>
  runs it on the worker with the given number.
\<close>

fun pool_apply :: "('w \<Rightarrow> py_error + 'r) \<Rightarrow> 'w list \<Rightarrow> py_error + 'r list" where
  "pool_apply f [] = Inr []"
| "pool_apply f (w # ws) =
     (case f w of
        Inl e \<Rightarrow> Inl e
      | Inr r \<Rightarrow> (case pool_apply f ws of Inl e \<Rightarrow> Inl e | Inr rs \<Rightarrow> Inr (r # rs)))"

definition pool_apply_only :: "('w \<Rightarrow> py_error + 'r) \<Rightarrow> nat \<Rightarrow> 'w list \<Rightarrow> py_error + 'r" where
  "pool_apply_only f worker ws = (if worker < length ws then f (ws ! worker) else Inl IndexError)"

text \<open>The three functions that run on the workers; each returns the new \<open>data\<close> too.\<close>

definition parallel_ei_greedy_initialize ::
    "(vec \<Rightarrow> real) option \<Rightarrow> vector_array \<Rightarrow> py_error + worker_data \<times> real" where
  "parallel_ei_greedy_initialize en U =
     (let errs = error_norms en U in
      case np_argmax errs of
        Inl e \<Rightarrow> Inl e
      | Inr i \<Rightarrow> Inr (\<lparr>data_U = U, data_max_err_ind = i\<rparr>, errs ! i))"

definition parallel_ei_greedy_get_vector :: "worker_data \<Rightarrow> py_error + vec" where
  "parallel_ei_greedy_get_vector d =
     (if data_max_err_ind d < length (data_U d) then Inr (data_U d ! data_max_err_ind d)
      else Inl IndexError)"

definition parallel_ei_greedy_update ::
    "(vec \<Rightarrow> real) option \<Rightarrow> vec \<Rightarrow> nat \<Rightarrow> worker_data \<Rightarrow> py_error + worker_data \<times> real" where
  "parallel_ei_greedy_update en new_vec new_dof d =
     (let U' = deflate new_dof new_vec (data_U d);
          errs = error_norms en U'
      in case np_argmax errs of
           Inl e \<Rightarrow> Inl e
         | Inr i \<Rightarrow> Inr (\<lparr>data_U = U', data_max_err_ind = i\<rparr>, errs ! i))"

record par_state =
  par_interpolation_dofs :: "nat list"
  par_collateral_basis :: vector_array
  par_max_errs :: "real list"
  distributed_data :: "worker_data list"
  par_max_err_ind :: nat
  par_max_err :: real

definition par_stop_check :: "ei_params \<Rightarrow> real \<Rightarrow> par_state \<Rightarrow> bool" where
  "par_stop_check p initial_max_err s =
     ((case max_interpolation_dofs p of None \<Rightarrow> False
        | Some m \<Rightarrow> m \<le> int (length (par_interpolation_dofs s)))
      \<or> (case atol p of None \<Rightarrow> False | Some a \<Rightarrow> par_max_err s \<le> a)
      \<or> (case rtol p of None \<Rightarrow> False
          | Some r \<Rightarrow> rel_err_le (par_max_err s) initial_max_err r))"

definition par_greedy_step :: "ei_params \<Rightarrow> par_state \<Rightarrow> py_error + (par_state + par_state)" where
  "par_greedy_step p s =
     (case pool_apply_only parallel_ei_greedy_get_vector (par_max_err_ind s) (distributed_data s) of
        Inl e \<Rightarrow> Inl e
      | Inr new_vec \<Rightarrow>
          (case amax new_vec of
             Inl e \<Rightarrow> Inl e
           | Inr new_dof \<Rightarrow>
               if new_dof \<in> set (par_interpolation_dofs s) then Inr (Inl s)
               else
                 let new_dof_value = new_vec ! new_dof in
                 if new_dof_value = 0 then Inr (Inl s)
                 else
                   let new_vec' = scal (1 / new_dof_value) new_vec in
                   (case pool_apply (parallel_ei_greedy_update (error_norm p) new_vec' new_dof)
                           (distributed_data s) of
                      Inl e \<Rightarrow> Inl e
                    | Inr rs \<Rightarrow>
                        (let errs = map snd rs in
                         case np_argmax errs of
                           Inl e \<Rightarrow> Inl e
                         | Inr i \<Rightarrow>
                             Inr (Inr \<lparr>par_interpolation_dofs = par_interpolation_dofs s @ [new_dof],
                                       par_collateral_basis = par_collateral_basis s @ [new_vec'],
                                       par_max_errs = par_max_errs s @ [par_max_err s],
                                       distributed_data = map fst rs,
                                       par_max_err_ind = i,
                                       par_max_err = errs ! i\<rparr>)))))"

definition par_free_dofs :: "par_state \<Rightarrow> nat" where
  "par_free_dofs s =
     card ({..<dim_bound (concat (map data_U (distributed_data s)))} - set (par_interpolation_dofs s))"

function parallel_ei_greedy_loop :: "ei_params \<Rightarrow> real \<Rightarrow> par_state \<Rightarrow> py_error + par_state" where
  "parallel_ei_greedy_loop p initial_max_err s =
     (if par_stop_check p initial_max_err s then Inr s
      else (case par_greedy_step p s of
              Inl e \<Rightarrow> Inl e
            | Inr (Inl s') \<Rightarrow> Inr s'
            | Inr (Inr s') \<Rightarrow> parallel_ei_greedy_loop p initial_max_err s'))"
  by pat_completeness auto

definition par_result :: "par_state \<Rightarrow> nat list \<times> vector_array \<times> ei_data" where
  "par_result s =
     (par_interpolation_dofs s, par_collateral_basis s,
      \<lparr>errors = par_max_errs s,
       triangularity_errors =
         triangularity_errs_of
           (interpolation_matrix_of (par_collateral_basis s) (par_interpolation_dofs s))\<rparr>)"

text \<open>
  \<open>_parallel_ei_greedy\<close> on an array that is already distributed. The empty basis is
  fetched from worker 0, so a pool without workers fails there.
\<close>

definition parallel_ei_greedy ::
    "ei_params \<Rightarrow> vector_array list \<Rightarrow> py_error + nat list \<times> vector_array \<times> ei_data" where
  "parallel_ei_greedy p shards =
     (case pool_apply_only (\<lambda>U. Inr ([] :: vector_array)) 0 shards of
        Inl e \<Rightarrow> Inl e
      | Inr empty_basis \<Rightarrow>
          (case pool_apply (parallel_ei_greedy_initialize (error_norm p)) shards of
             Inl e \<Rightarrow> Inl e
           | Inr rs \<Rightarrow>
               (let errs = map snd rs in
                case np_argmax errs of
                  Inl e \<Rightarrow> Inl e
                | Inr i \<Rightarrow>
                    (case parallel_ei_greedy_loop p (errs ! i)
                            \<lparr>par_interpolation_dofs = [], par_collateral_basis = empty_basis,
                             par_max_errs = [], distributed_data = map fst rs,
                             par_max_err_ind = i, par_max_err = errs ! i\<rparr> of
                       Inl e \<Rightarrow> Inl e
                     | Inr s \<Rightarrow> Inr (par_result s)))))"

text \<open>
  A distributed and a sequential state describe the same run when they hold the same DOFs,
  basis and errors, the sequential array is the concatenation of the shards in worker
  order, and the sequential worst vector is the worst vector of the picked worker.
\<close>

definition same_run :: "par_state \<Rightarrow> ei_state \<Rightarrow> bool" where
  "same_run sp ss =
     (interpolation_dofs ss = par_interpolation_dofs sp
      \<and> collateral_basis ss = par_collateral_basis sp
      \<and> max_errs ss = par_max_errs sp
      \<and> max_err ss = par_max_err sp
      \<and> ERR ss = concat (map data_U (distributed_data sp))
      \<and> par_max_err_ind sp < length (distributed_data sp)
      \<and> list_all (\<lambda>w. data_max_err_ind w < length (data_U w)) (distributed_data sp)
      \<and> max_err_ind ss
          = length (concat (take (par_max_err_ind sp) (map data_U (distributed_data sp))))
            + data_max_err_ind (distributed_data sp ! par_max_err_ind sp))"


subsection \<open>DEIM\<close>

text \<open>
  \<open>deim\<close> calls two routines from outside this module. \<open>pod\<close> (with its options
  \<open>modes\<close>, \<open>atol\<close>, \<open>rtol\<close>, \<open>product\<close>) returns the collateral basis and the
  singular values; \<open>np.linalg.solve\<close> returns the solution of a square system or raises
  LinAlgError. Both are parameters of the model.
\<close>

type_synonym pod_routine = "vector_array \<Rightarrow> vector_array \<times> real list"
type_synonym linalg_solve = "real list list \<Rightarrow> real list \<Rightarrow> py_error + real list"

text \<open>\<open>basis.lincomb(coefficients)\<close> for one row of coefficients, in dimension \<open>n\<close>.\<close>

definition lincomb :: "nat \<Rightarrow> vector_array \<Rightarrow> real list \<Rightarrow> vec" where
  "lincomb n basis coefficients =
     map (\<lambda>j. sum_list (map2 (\<lambda>c b. c * b ! j) coefficients basis)) [0..<n]"

text \<open>The residual \<open>ERR\<close> of basis vector \<open>i\<close> in one round of the loop.\<close>

definition deim_residual ::
    "linalg_solve \<Rightarrow> vector_array \<Rightarrow> nat list \<Rightarrow> real list list \<Rightarrow> nat \<Rightarrow> py_error + vec" where
  "deim_residual solve basis dofs M i =
     (if 0 < length dofs then
        (case solve M (map (\<lambda>d. basis ! i ! d) dofs) of
           Inl e \<Rightarrow> Inl e
         | Inr coefficients \<Rightarrow>
             Inr (map2 (\<lambda>x y. x - y) (basis ! i)
                    (lincomb (length (basis ! i)) (take (length dofs) basis) coefficients)))
      else Inr (basis ! i))"

text \<open>
  \<open>for i in range(len(collateral_basis))\<close>, over the list of the remaining indices; the
  state is the pair of \<open>interpolation_dofs\<close> and \<open>interpolation_matrix\<close>.
\<close>

fun deim_loop ::
    "linalg_solve \<Rightarrow> vector_array \<Rightarrow> nat list \<Rightarrow> nat list \<times> real list list
       \<Rightarrow> py_error + nat list \<times> real list list" where
  "deim_loop solve basis [] st = Inr st"
| "deim_loop solve basis (i # rest) (dofs, M) =
     (case deim_residual solve basis dofs M i of
        Inl e \<Rightarrow> Inl e
      | Inr residual \<Rightarrow>
          (case amax residual of
             Inl e \<Rightarrow> Inl e
           | Inr new_dof \<Rightarrow>
               if new_dof \<in> set dofs then Inr (dofs, M)
               else
                 let dofs' = dofs @ [new_dof] in
                 deim_loop solve basis rest
                   (dofs', interpolation_matrix_of (take (length dofs') basis) dofs')))"

definition deim ::
    "pod_routine \<Rightarrow> linalg_solve \<Rightarrow> vector_array
       \<Rightarrow> py_error + nat list \<times> vector_array \<times> real list" where
  "deim pod solve U =
     (let (basis, svals) = pod U in
      case deim_loop solve basis [0..<length basis] ([], []) of
        Inl e \<Rightarrow> Inl e
      | Inr (dofs, M) \<Rightarrow>
          Inr (dofs,
               (if length dofs < length basis then take (length dofs) basis else basis),
               svals))"

text \<open>
  An exact solver for systems of one or two unknowns (Cramer's rule), to run \<open>deim\<close> on
  small inputs; a singular matrix is LinAlgError, as with \<open>np.linalg.solve\<close>. Larger
  systems are not covered by it.
\<close>

fun cramer_solve :: linalg_solve where
  "cramer_solve [[a]] [b] = (if a = 0 then Inl LinAlgError else Inr [b / a])"
| "cramer_solve [[a, b], [c, d]] [e, f] =
     (if a * d - b * c = 0 then Inl LinAlgError
      else Inr [(e * d - b * f) / (a * d - b * c), (a * f - e * c) / (a * d - b * c)])"
| "cramer_solve M b = Inl LinAlgError"

subsection \<open>Termination of the greedy loops\<close>

lemma argmax_scan_range:
  "argmax_scan xs i bi bv = bi \<or> (i \<le> argmax_scan xs i bi bv \<and> argmax_scan xs i bi bv < i + length xs)"
proof (induction xs arbitrary: i bi bv)
  case Nil
  then show ?case by simp
next
  case (Cons x xs)
  show ?case
    using Cons.IH[of "Suc i" i x] Cons.IH[of "Suc i" bi bv] by auto
qed

lemma np_argmax_less: "np_argmax xs = Inr k \<Longrightarrow> k < length xs"
  using argmax_scan_range[of "tl xs" 1 0 "hd xs"]
  by (auto simp: np_argmax_def split: list.splits)

lemma np_argmax_empty: "np_argmax [] = Inl ValueError"
  by (simp add: np_argmax_def)

lemma np_argmax_Inl: "np_argmax xs = Inl e \<Longrightarrow> xs = [] \<and> e = ValueError"
  by (auto simp: np_argmax_def split: list.splits)

lemma argmax_scan_spec:
  "(argmax_scan xs i bi bv = bi \<and> (\<forall>x \<in> set xs. x \<le> bv))
   \<or> (\<exists>j < length xs. argmax_scan xs i bi bv = i + j \<and> bv < xs ! j
          \<and> (\<forall>x \<in> set xs. x \<le> xs ! j) \<and> (\<forall>l < j. xs ! l < xs ! j))"
proof (induction xs arbitrary: i bi bv)
  case Nil
  then show ?case by simp
next
  case (Cons x xs)
  show ?case
  proof (cases "bv < x")
    case True
    from Cons.IH[of "Suc i" i x]
    show ?thesis
    proof (elim disjE exE conjE)
      assume "argmax_scan xs (Suc i) i x = i" "\<forall>y \<in> set xs. y \<le> x"
      with True have "0 < length (x # xs) \<and> argmax_scan (x # xs) i bi bv = i + 0 \<and> bv < (x # xs) ! 0
          \<and> (\<forall>y \<in> set (x # xs). y \<le> (x # xs) ! 0) \<and> (\<forall>l < 0. (x # xs) ! l < (x # xs) ! 0)"
        by simp
      then show ?thesis by blast
    next
      fix j assume j: "j < length xs" "argmax_scan xs (Suc i) i x = Suc i + j" "x < xs ! j"
        "\<forall>y \<in> set xs. y \<le> xs ! j" "\<forall>l < j. xs ! l < xs ! j"
      with True have "Suc j < length (x # xs) \<and> argmax_scan (x # xs) i bi bv = i + Suc j
          \<and> bv < (x # xs) ! Suc j
          \<and> (\<forall>y \<in> set (x # xs). y \<le> (x # xs) ! Suc j)
          \<and> (\<forall>l < Suc j. (x # xs) ! l < (x # xs) ! Suc j)"
        by (auto simp: less_Suc_eq_0_disj)
      then show ?thesis by blast
    qed
  next
    case False
    from Cons.IH[of "Suc i" bi bv]
    show ?thesis
    proof (elim disjE exE conjE)
      assume "argmax_scan xs (Suc i) bi bv = bi" "\<forall>y \<in> set xs. y \<le> bv"
      with False show ?thesis by simp
    next
      fix j assume j: "j < length xs" "argmax_scan xs (Suc i) bi bv = Suc i + j" "bv < xs ! j"
        "\<forall>y \<in> set xs. y \<le> xs ! j" "\<forall>l < j. xs ! l < xs ! j"
      with False have "Suc j < length (x # xs) \<and> argmax_scan (x # xs) i bi bv = i + Suc j
          \<and> bv < (x # xs) ! Suc j
          \<and> (\<forall>y \<in> set (x # xs). y \<le> (x # xs) ! Suc j)
          \<and> (\<forall>l < Suc j. (x # xs) ! l < (x # xs) ! Suc j)"
        by (auto simp: less_Suc_eq_0_disj)
      then show ?thesis by blast
    qed
  qed
qed

text \<open>\<open>np.argmax\<close> returns the first index of a largest entry.\<close>

lemma np_argmax_first_max:
  assumes "np_argmax ys = Inr k"
  shows "k < length ys \<and> (\<forall>y \<in> set ys. y \<le> ys ! k) \<and> (\<forall>l < k. ys ! l < ys ! k)"
proof (cases ys)
  case Nil
  with assms show ?thesis by (simp add: np_argmax_def)
next
  case (Cons x xs)
  with assms have k: "k = argmax_scan xs 1 0 x" by (simp add: np_argmax_def)
  from argmax_scan_spec[of xs 1 0 x] show ?thesis
  proof (elim disjE exE conjE)
    assume "argmax_scan xs 1 0 x = 0" "\<forall>y \<in> set xs. y \<le> x"
    with k Cons show ?thesis by simp
  next
    fix j assume "j < length xs" "argmax_scan xs 1 0 x = 1 + j" "x < xs ! j"
      "\<forall>y \<in> set xs. y \<le> xs ! j" "\<forall>l < j. xs ! l < xs ! j"
    with k Cons show ?thesis by (auto simp: less_Suc_eq_0_disj)
  qed
qed

lemma np_argmax_nonempty: "ys \<noteq> [] \<Longrightarrow> \<exists>k. np_argmax ys = Inr k"
  by (cases ys) (simp_all add: np_argmax_def)

lemma np_argmax_unique:
  assumes "k < length ys" "\<forall>y \<in> set ys. y \<le> ys ! k" "\<forall>l < k. ys ! l < ys ! k"
  shows "np_argmax ys = Inr k"
proof -
  from assms(1) have "ys \<noteq> []" by auto
  then obtain k' where k': "np_argmax ys = Inr k'"
    using np_argmax_nonempty[of ys] by blast
  note p = np_argmax_first_max[OF k']
  have "\<not> k' < k"
  proof
    assume "k' < k"
    with assms(3) have "ys ! k' < ys ! k" by simp
    moreover have "ys ! k \<le> ys ! k'" using p assms(1) by simp
    ultimately show False by simp
  qed
  moreover have "\<not> k < k'"
  proof
    assume "k < k'"
    with p have "ys ! k < ys ! k'" by simp
    moreover have "ys ! k' \<le> ys ! k" using p assms(2) by simp
    ultimately show False by simp
  qed
  ultimately show ?thesis using k' by simp
qed


lemma amax_less: "amax v = Inr d \<Longrightarrow> d < length v"
  using np_argmax_less[of "map abs v" d] by (simp add: amax_def)

lemma length_axpy1: "length (axpy1 a x y) \<le> length y"
  by (simp add: axpy1_def)

lemma dim_bound_ge: "u \<in> set U \<Longrightarrow> length u \<le> dim_bound U"
  by (simp add: dim_bound_def)

lemma dim_bound_deflate: "dim_bound (deflate d v U) \<le> dim_bound U"
proof -
  have "\<forall>n \<in> insert 0 (length ` set (deflate d v U)). n \<le> dim_bound U"
  proof
    fix n assume "n \<in> insert 0 (length ` set (deflate d v U))"
    then consider "n = 0" | u where "u \<in> set U" "n = length (axpy1 (- (u ! d)) v u)"
      by (auto simp: deflate_def)
    then show "n \<le> dim_bound U"
    proof cases
      case 1 then show ?thesis by simp
    next
      case 2
      then show ?thesis
        using length_axpy1[of "- (u ! d)" v u] dim_bound_ge[of u U] by linarith
    qed
  qed
  then show ?thesis
    unfolding dim_bound_def[of "deflate d v U"] by (subst Max_le_iff) auto
qed

text \<open>What an accepted round does to the state.\<close>

lemma greedy_step_next:
  assumes "greedy_step p s = Inr (Inr s')"
  shows "\<exists>d v. d \<notin> set (interpolation_dofs s) \<and> d < dim_bound (ERR s)
            \<and> max_err_ind s < length (ERR s)
            \<and> amax (ERR s ! max_err_ind s) = Inr d
            \<and> (ERR s ! max_err_ind s) ! d \<noteq> 0
            \<and> v = scal (1 / ((ERR s ! max_err_ind s) ! d)) (ERR s ! max_err_ind s)
            \<and> interpolation_dofs s' = interpolation_dofs s @ [d]
            \<and> collateral_basis s' = collateral_basis s @ [v]
            \<and> max_errs s' = max_errs s @ [max_err s]
            \<and> ERR s' = deflate d v (ERR s)
            \<and> np_argmax (error_norms (error_norm p) (ERR s')) = Inr (max_err_ind s')
            \<and> max_err s' = error_norms (error_norm p) (ERR s') ! max_err_ind s'"
proof -
  from assms have ind: "max_err_ind s < length (ERR s)"
    by (auto simp: greedy_step_def split: if_splits)
  let ?nv = "ERR s ! max_err_ind s"
  from assms ind obtain d where d: "amax ?nv = Inr d"
    by (cases "amax ?nv") (auto simp: greedy_step_def Let_def)
  have "d < length ?nv" using amax_less[OF d] .
  moreover have "length ?nv \<le> dim_bound (ERR s)"
    using ind dim_bound_ge[of ?nv "ERR s"] by simp
  ultimately have "d < dim_bound (ERR s)" by linarith
  with assms ind d show ?thesis
    by (auto simp: greedy_step_def Let_def split: if_splits sum.splits)
qed

lemma greedy_step_free_dofs: 
  assumes "greedy_step p s = Inr (Inr s')"
  shows "free_dofs s' < free_dofs s"
proof -
  from greedy_step_next[OF assms] obtain d v where
    d: "d \<notin> set (interpolation_dofs s)" "d < dim_bound (ERR s)"
    and s': "interpolation_dofs s' = interpolation_dofs s @ [d]" "ERR s' = deflate d v (ERR s)"
    by blast
  have "{..<dim_bound (ERR s')} - set (interpolation_dofs s')
          \<subset> {..<dim_bound (ERR s)} - set (interpolation_dofs s)"
    using d s' dim_bound_deflate[of d v "ERR s"] by auto
  then show ?thesis
    unfolding free_dofs_def by (intro psubset_card_mono) auto
qed

termination ei_greedy_loop
  by (relation "measure (\<lambda>(p, i, s). free_dofs s)") (auto simp: greedy_step_free_dofs)

declare ei_greedy_loop.simps [simp del]

text \<open>The same for the distributed loop, over the shards of all workers.\<close>

lemma pool_apply_Inr:
  "pool_apply f ws = Inr rs \<Longrightarrow> list_all2 (\<lambda>w r. f w = Inr r) ws rs"
proof (induction ws arbitrary: rs)
  case Nil
  then show ?case by simp
next
  case (Cons w ws)
  from Cons.prems obtain r rs' where "f w = Inr r" "pool_apply f ws = Inr rs'" "rs = r # rs'"
    by (auto split: sum.splits)
  with Cons.IH[of rs'] show ?case by simp
qed

lemma pool_apply_all:
  "list_all2 (\<lambda>w r. f w = Inr r) ws rs \<Longrightarrow> pool_apply f ws = Inr rs"
  by (induction ws rs rule: list_all2_induct) auto

lemma pool_apply_fails:
  "pool_apply f ws = Inl e \<Longrightarrow> \<exists>w \<in> set ws. f w = Inl e"
proof (induction ws)
  case Nil
  then show ?case by simp
next
  case (Cons w ws)
  then show ?case by (auto split: sum.splits)
qed

lemma update_Inr:
  assumes "parallel_ei_greedy_update en v d w = Inr (w', m)"
  shows "data_U w' = deflate d v (data_U w)
         \<and> np_argmax (error_norms en (data_U w')) = Inr (data_max_err_ind w')
         \<and> m = error_norms en (data_U w') ! data_max_err_ind w'"
  using assms by (auto simp: parallel_ei_greedy_update_def Let_def split: sum.splits)

lemma deflate_concat: "deflate d v (concat Us) = concat (map (deflate d v) Us)"
  by (induction Us) (simp_all add: deflate_def)

lemma update_all_shards:
  assumes "pool_apply (parallel_ei_greedy_update en v d) ws = Inr rs"
  shows "map data_U (map fst rs) = map (deflate d v) (map data_U ws)"
proof -
  from pool_apply_Inr[OF assms]
  have "list_all2 (\<lambda>w r. data_U (fst r) = deflate d v (data_U w)) ws rs"
    by (rule list_all2_mono) (use update_Inr in \<open>metis prod.collapse\<close>)
  then show ?thesis
    by (induction ws rs rule: list_all2_induct) auto
qed

lemma par_greedy_step_next:
  assumes "par_greedy_step p s = Inr (Inr s')"
  shows "\<exists>new_vec d v rs.
            pool_apply_only parallel_ei_greedy_get_vector (par_max_err_ind s) (distributed_data s)
              = Inr new_vec
          \<and> amax new_vec = Inr d \<and> d \<notin> set (par_interpolation_dofs s) \<and> new_vec ! d \<noteq> 0
          \<and> v = scal (1 / (new_vec ! d)) new_vec
          \<and> pool_apply (parallel_ei_greedy_update (error_norm p) v d) (distributed_data s) = Inr rs
          \<and> np_argmax (map snd rs) = Inr (par_max_err_ind s')
          \<and> par_interpolation_dofs s' = par_interpolation_dofs s @ [d]
          \<and> par_collateral_basis s' = par_collateral_basis s @ [v]
          \<and> par_max_errs s' = par_max_errs s @ [par_max_err s]
          \<and> distributed_data s' = map fst rs
          \<and> par_max_err s' = map snd rs ! par_max_err_ind s'"
  using assms
  by (auto simp: par_greedy_step_def Let_def split: sum.splits if_splits)

lemma get_vector_member:
  assumes "pool_apply_only parallel_ei_greedy_get_vector k ws = Inr new_vec"
  shows "new_vec \<in> set (concat (map data_U ws))"
proof -
  from assms have k: "k < length ws"
    and v: "data_max_err_ind (ws ! k) < length (data_U (ws ! k))"
           "new_vec = data_U (ws ! k) ! data_max_err_ind (ws ! k)"
    by (auto simp: pool_apply_only_def parallel_ei_greedy_get_vector_def split: if_splits)
  then have "new_vec \<in> set (data_U (ws ! k))" by simp
  with k show ?thesis by auto
qed

lemma par_greedy_step_free_dofs:
  assumes "par_greedy_step p s = Inr (Inr s')"
  shows "par_free_dofs s' < par_free_dofs s"
proof -
  from par_greedy_step_next[OF assms] obtain new_vec d v rs where
    g: "pool_apply_only parallel_ei_greedy_get_vector (par_max_err_ind s) (distributed_data s)
              = Inr new_vec"
    and d: "amax new_vec = Inr d" "d \<notin> set (par_interpolation_dofs s)"
    and u: "pool_apply (parallel_ei_greedy_update (error_norm p) v d) (distributed_data s) = Inr rs"
    and s': "par_interpolation_dofs s' = par_interpolation_dofs s @ [d]"
            "distributed_data s' = map fst rs"
    by blast
  let ?U = "concat (map data_U (distributed_data s))"
  have "d < length new_vec" using amax_less[OF d(1)] .
  moreover have "length new_vec \<le> dim_bound ?U"
    using get_vector_member[OF g] by (rule dim_bound_ge)
  ultimately have dlt: "d < dim_bound ?U" by linarith
  have "concat (map data_U (distributed_data s')) = deflate d v ?U"
    using update_all_shards[OF u] s'(2) by (simp add: deflate_concat)
  then have "dim_bound (concat (map data_U (distributed_data s'))) \<le> dim_bound ?U"
    using dim_bound_deflate[of d v ?U] by simp
  then have "{..<dim_bound (concat (map data_U (distributed_data s')))} - set (par_interpolation_dofs s')
          \<subset> {..<dim_bound ?U} - set (par_interpolation_dofs s)"
    using d(2) dlt s'(1) by auto
  then show ?thesis
    unfolding par_free_dofs_def by (intro psubset_card_mono) auto
qed

termination parallel_ei_greedy_loop
  by (relation "measure (\<lambda>(p, i, s). par_free_dofs s)") (auto simp: par_greedy_step_free_dofs)

declare parallel_ei_greedy_loop.simps [simp del]

section \<open>Properties of EI-Greedy\<close>

subsection \<open>Loop invariants\<close>

lemma greedy_step_break: "greedy_step p s = Inr (Inl s') \<Longrightarrow> s' = s"
  by (auto simp: greedy_step_def Let_def split: if_splits sum.splits)

lemma ei_greedy_loop_invariant:
  assumes "ei_greedy_loop p i0 s = Inr s'"
    and "P s"
    and step: "\<And>s s'. P s \<Longrightarrow> \<not> stop_check p i0 s \<Longrightarrow> greedy_step p s = Inr (Inr s') \<Longrightarrow> P s'"
  shows "P s'"
  using assms
proof (induction p i0 s rule: ei_greedy_loop.induct)
  case (1 p i0 s)
  show ?case
  proof (cases "stop_check p i0 s")
    case True
    with "1.prems" show ?thesis by (simp add: ei_greedy_loop.simps[of p i0 s])
  next
    case False
    show ?thesis
    proof (cases "greedy_step p s")
      case (Inl e)
      with False "1.prems" show ?thesis by (simp add: ei_greedy_loop.simps[of p i0 s])
    next
      case (Inr r)
      show ?thesis
      proof (cases r)
        case (Inl sb)
        with Inr False "1.prems" greedy_step_break[of p s sb] show ?thesis
          by (simp add: ei_greedy_loop.simps[of p i0 s])
      next
        case (Inr sn)
        with \<open>greedy_step p s = Inr r\<close> have e: "greedy_step p s = Inr (Inr sn)" by simp
        have "P sn" using "1.prems"(3)[OF "1.prems"(2) False e] .
        moreover have "ei_greedy_loop p i0 sn = Inr s'"
          using "1.prems"(1) False e by (simp add: ei_greedy_loop.simps[of p i0 s])
        ultimately show ?thesis using "1.IH"[OF False e] "1.prems"(3) by blast
      qed
    qed
  qed
qed

lemma ei_empty: "ei_greedy p [] = Inl ValueError"
  by (simp add: ei_greedy_def error_norms_def np_argmax_def split: option.splits)

lemma ei_greedy_Inr:
  assumes "ei_greedy p U = Inr r"
  shows "\<exists>i s. np_argmax (error_norms (error_norm p) U) = Inr i
           \<and> ei_greedy_loop p (error_norms (error_norm p) U ! i)
                \<lparr>interpolation_dofs = [], collateral_basis = [], max_errs = [],
                 ERR = U, max_err_ind = i, max_err = error_norms (error_norm p) U ! i\<rparr> = Inr s
           \<and> r = ei_result s"
  using assms by (auto simp: ei_greedy_def Let_def split: sum.splits)

lemma ei_greedy_invariant:
  assumes "ei_greedy p U = Inr (dofs, basis, d)"
    and "\<And>i. np_argmax (error_norms (error_norm p) U) = Inr i \<Longrightarrow>
              P \<lparr>interpolation_dofs = [], collateral_basis = [], max_errs = [], ERR = U,
                 max_err_ind = i, max_err = error_norms (error_norm p) U ! i\<rparr>"
    and "\<And>s s' e0. P s \<Longrightarrow> \<not> stop_check p e0 s \<Longrightarrow> greedy_step p s = Inr (Inr s') \<Longrightarrow> P s'"
  shows "\<exists>s. P s \<and> dofs = interpolation_dofs s \<and> basis = collateral_basis s \<and> errors d = max_errs s"
proof -
  from ei_greedy_Inr[OF assms(1)] obtain i s where
    i: "np_argmax (error_norms (error_norm p) U) = Inr i"
    and loop: "ei_greedy_loop p (error_norms (error_norm p) U ! i)
                \<lparr>interpolation_dofs = [], collateral_basis = [], max_errs = [],
                 ERR = U, max_err_ind = i, max_err = error_norms (error_norm p) U ! i\<rparr> = Inr s"
    and r: "(dofs, basis, d) = ei_result s" by blast
  have "P s"
    by (rule ei_greedy_loop_invariant[OF loop, of P]) (use assms(2,3) i in blast)+
  with r show ?thesis by (auto simp: ei_result_def)
qed

lemma scal_nth: "d < length v \<Longrightarrow> scal a v ! d = a * v ! d"
  by (simp add: scal_def)

lemma ei_lengths:
  assumes "ei_greedy p U = Inr (dofs, basis, d)"
  shows "length basis = length dofs \<and> length (errors d) = length dofs"
proof -
  let ?P = "\<lambda>s. length (collateral_basis s) = length (interpolation_dofs s)
               \<and> length (max_errs s) = length (interpolation_dofs s)"
  have "\<exists>s::ei_state. ?P s \<and> dofs = interpolation_dofs s \<and> basis = collateral_basis s \<and> errors d = max_errs s"
  proof (rule ei_greedy_invariant[where P = ?P, OF assms])
    fix s s' :: ei_state assume "?P s" "greedy_step p s = Inr (Inr s')"
    then show "?P s'" using greedy_step_next[of p s s'] by auto
  qed simp
  then show ?thesis by auto
qed

lemma ei_distinct:
  assumes "ei_greedy p U = Inr (dofs, basis, d)"
  shows "distinct dofs"
proof -
  let ?P = "\<lambda>s. distinct (interpolation_dofs s)"
  have "\<exists>s::ei_state. ?P s \<and> dofs = interpolation_dofs s \<and> basis = collateral_basis s \<and> errors d = max_errs s"
  proof (rule ei_greedy_invariant[where P = ?P, OF assms])
    fix s s' :: ei_state assume "?P s" "greedy_step p s = Inr (Inr s')"
    then show "?P s'" using greedy_step_next[of p s s'] by auto
  qed simp
  then show ?thesis by auto
qed

lemma ei_unit_at_dof:
  assumes "ei_greedy p U = Inr (dofs, basis, d)" and "i < length basis"
  shows "basis ! i ! (dofs ! i) = 1"
proof -
  let ?P = "\<lambda>s. length (collateral_basis s) = length (interpolation_dofs s)
               \<and> (\<forall>i < length (collateral_basis s). collateral_basis s ! i ! (interpolation_dofs s ! i) = 1)"
  have "\<exists>s::ei_state. ?P s \<and> dofs = interpolation_dofs s \<and> basis = collateral_basis s \<and> errors d = max_errs s"
  proof (rule ei_greedy_invariant[where P = ?P, OF assms(1)])
    fix s s' :: ei_state assume P: "?P s" and e: "greedy_step p s = Inr (Inr s')"
    from greedy_step_next[OF e] obtain dd v where
      dd: "amax (ERR s ! max_err_ind s) = Inr dd" "(ERR s ! max_err_ind s) ! dd \<noteq> 0"
      and v: "v = scal (1 / ((ERR s ! max_err_ind s) ! dd)) (ERR s ! max_err_ind s)"
      and s': "interpolation_dofs s' = interpolation_dofs s @ [dd]"
              "collateral_basis s' = collateral_basis s @ [v]"
      by blast
    have "v ! dd = 1"
      using dd v amax_less[OF dd(1)] by (simp add: scal_nth)
    with P s' show "?P s'"
      by (auto simp: nth_append less_Suc_eq)
  qed simp
  with assms(2) show ?thesis by auto
qed

lemma degenerate_stop:
  assumes "\<not> stop_check p i0 s" "max_err_ind s < length (ERR s)"
    "amax (ERR s ! max_err_ind s) = Inr new_dof"
    "new_dof \<in> set (interpolation_dofs s) \<or> ERR s ! max_err_ind s ! new_dof = 0"
  shows "ei_greedy_loop p i0 s = Inr s"
proof -
  have "greedy_step p s = Inr (Inl s)"
    using assms by (auto simp: greedy_step_def Let_def)
  with assms(1) show ?thesis by (simp add: ei_greedy_loop.simps[of p i0 s])
qed

lemma ei_stop_at_once:
  assumes "U \<noteq> []" "max_interpolation_dofs p = Some m" "m \<le> 0"
  shows "ei_greedy p U = Inr ([], [], \<lparr>errors = [], triangularity_errors = []\<rparr>)"
proof -
  from assms(1) obtain i where i: "np_argmax (error_norms (error_norm p) U) = Inr i"
    by (cases "np_argmax (error_norms (error_norm p) U)")
       (auto dest!: np_argmax_Inl simp: error_norms_def split: option.splits)
  have "stop_check p e \<lparr>interpolation_dofs = [], collateral_basis = [], max_errs = [],
                 ERR = U, max_err_ind = i, max_err = e\<rparr>" for e
    using assms by (simp add: stop_check_def)
  then show ?thesis using i
    by (simp add: ei_greedy_def Let_def ei_result_def triangularity_errs_of_def
        interpolation_matrix_of_def ei_greedy_loop.simps[of p _ "\<lparr>interpolation_dofs = [],
          collateral_basis = [], max_errs = [], ERR = U, max_err_ind = i, max_err = _\<rparr>"])
qed

subsection \<open>The scaling of a new basis vector in floating point\<close>

text \<open>
  The selected DOF holds the entry of largest magnitude, so after the division by it no
  entry is larger than 1: when the quotient \<open>1 / new_dof_value\<close> does not overflow, no
  product does, and the double computation returns the vector of the exact one. When it
  overflows, the entry at the selected DOF is infinity times a number that is not zero.
\<close>

lemma one_less_overflow_threshold: "1 < overflow_threshold"
  by (simp add: overflow_threshold_def)

lemma fl_round_Fin: "\<bar>x\<bar> < overflow_threshold \<Longrightarrow> fl_round x = Fin x"
  by (auto simp: fl_round_def)

lemma amax_largest:
  assumes "amax v = Inr k"
  shows "k < length v \<and> (\<forall>x \<in> set v. \<bar>x\<bar> \<le> \<bar>v ! k\<bar>)"
proof -
  from assms have a: "np_argmax (map abs v) = Inr k" by (simp add: amax_def)
  note m = np_argmax_first_max[OF a]
  from m have k: "k < length v" by simp
  have "\<bar>x\<bar> \<le> \<bar>v ! k\<bar>" if "x \<in> set v" for x
  proof -
    from that have "\<bar>x\<bar> \<in> set (map abs v)" by simp
    with m have "\<bar>x\<bar> \<le> map abs v ! k" by blast
    with k show ?thesis by simp
  qed
  with k show ?thesis by blast
qed

lemma scaled_new_vec_exact:
  assumes "amax v = Inr k" and "v ! k \<noteq> 0" and "\<bar>1 / v ! k\<bar> < overflow_threshold"
  shows "scaled_new_vec v k = Some (map Fin (scal (1 / v ! k) v))"
proof -
  let ?a = "v ! k"
  note m = amax_largest[OF assms(1)]
  have "fl_times (fl_round (1 / ?a)) x = Fin (1 / ?a * x)" if "x \<in> set v" for x
  proof -
    from m that have "\<bar>x\<bar> \<le> \<bar>?a\<bar>" by blast
    with assms(2) have "\<bar>1 / ?a * x\<bar> \<le> 1" by (simp add: abs_mult divide_le_eq)
    with one_less_overflow_threshold have "\<bar>1 / ?a * x\<bar> < overflow_threshold" by linarith
    then have "fl_round (1 / ?a * x) = Fin (1 / ?a * x)" by (rule fl_round_Fin)
    then show ?thesis using fl_round_Fin[OF assms(3)] by (simp add: fl_times_def)
  qed
  then have "map (fl_times (fl_round (1 / ?a))) v = map Fin (scal (1 / ?a) v)"
    by (simp add: scal_def)
  with assms(2) show ?thesis by (simp add: scaled_new_vec_def)
qed

lemma scaled_new_vec_overflow:
  assumes "k < length v" and "v ! k \<noteq> 0" and "overflow_threshold \<le> \<bar>1 / v ! k\<bar>"
  shows "scaled_new_vec v k = Some (map (fl_times (fl_round (1 / v ! k))) v)
         \<and> map (fl_times (fl_round (1 / v ! k))) v ! k = PosInf"
proof -
  let ?a = "v ! k"
  have pos: "0 < overflow_threshold" using one_less_overflow_threshold by linarith
  have "fl_times (fl_round (1 / ?a)) ?a = PosInf"
  proof (cases "0 < ?a")
    case True
    with assms(3) have "overflow_threshold \<le> 1 / ?a" by simp
    then have "fl_round (1 / ?a) = PosInf" by (simp add: fl_round_def)
    with True show ?thesis by (simp add: fl_times_def)
  next
    case False
    with assms(2) have neg: "?a < 0" by simp
    then have "1 / ?a < 0" by simp
    with assms(3) have le: "1 / ?a \<le> - overflow_threshold" by linarith
    with pos have "\<not> overflow_threshold \<le> 1 / ?a" by linarith
    with le have "fl_round (1 / ?a) = NegInf" by (simp add: fl_round_def)
    with neg show ?thesis by (simp add: fl_times_def)
  qed
  with assms(1,2) show ?thesis by (simp add: scaled_new_vec_def)
qed


lemma greedy_step_scaling:
  assumes "greedy_step p s = Inr (Inr s')"
  shows "amax (ERR s ! max_err_ind s) = Inr (last (interpolation_dofs s'))
         \<and> (ERR s ! max_err_ind s) ! last (interpolation_dofs s') \<noteq> 0
         \<and> last (collateral_basis s')
             = scal (1 / (ERR s ! max_err_ind s) ! last (interpolation_dofs s'))
                 (ERR s ! max_err_ind s)"
  using greedy_step_next[OF assms] by auto

section \<open>Sequential and distributed EI-Greedy\<close>

subsection \<open>The largest entry of a distributed array\<close>

lemma concat_nth_shard:
  assumes "w < length xss" "j < length (xss ! w)"
  shows "length (concat (take w xss)) + j < length (concat xss)
         \<and> concat xss ! (length (concat (take w xss)) + j) = xss ! w ! j"
proof -
  have "xss = take w xss @ (xss ! w) # drop (Suc w) xss"
    using assms(1) by (rule id_take_nth_drop)
  then have "concat xss = concat (take w xss) @ (xss ! w) @ concat (drop (Suc w) xss)"
    by (metis concat.simps(2) concat_append)
  with assms(2) show ?thesis by (simp add: nth_append)
qed

lemma concat_index_split:
  "l < length (concat xss) \<Longrightarrow>
     \<exists>w j. w < length xss \<and> j < length (xss ! w) \<and> l = length (concat (take w xss)) + j"
proof (induction xss arbitrary: l)
  case Nil
  then show ?case by simp
next
  case (Cons xs xss)
  show ?case
  proof (cases "l < length xs")
    case True
    then have "0 < length (xs # xss) \<and> l < length ((xs # xss) ! 0)
               \<and> l = length (concat (take 0 (xs # xss))) + l" by simp
    then show ?thesis by blast
  next
    case False
    with Cons.prems have "l - length xs < length (concat xss)" by simp
    from Cons.IH[OF this] obtain w j where
      "w < length xss" "j < length (xss ! w)" "l - length xs = length (concat (take w xss)) + j"
      by blast
    with False have "Suc w < length (xs # xss) \<and> j < length ((xs # xss) ! Suc w)
               \<and> l = length (concat (take (Suc w) (xs # xss))) + j" by simp
    then show ?thesis by blast
  qed
qed

lemma offset_next:
  assumes "w < w'" "w' \<le> length xss"
  shows "length (concat (take w xss)) + length (xss ! w) \<le> length (concat (take w' xss))"
proof -
  have w: "w < length xss" using assms by simp
  have "take w' xss = take (Suc w) xss @ take (w' - Suc w) (drop (Suc w) xss)"
    using assms(1) take_add[of "Suc w" "w' - Suc w" xss] by simp
  moreover have "take (Suc w) xss = take w xss @ [xss ! w]"
    using w by (rule take_Suc_conv_app_nth)
  ultimately show ?thesis by simp
qed

text \<open>
  The first largest entry of a concatenation lies in the first shard whose own maximum is
  largest, at the place of the first largest entry of that shard.
\<close>

lemma np_argmax_concat:
  assumes loc: "list_all2 (\<lambda>xs k. np_argmax xs = Inr k) xss ks"
    and W: "np_argmax (map2 (\<lambda>xs k. xs ! k) xss ks) = Inr W"
  shows "np_argmax (concat xss) = Inr (length (concat (take W xss)) + ks ! W)
         \<and> concat xss ! (length (concat (take W xss)) + ks ! W)
             = map2 (\<lambda>xs k. xs ! k) xss ks ! W"
proof -
  let ?ms = "map2 (\<lambda>xs k. xs ! k) xss ks"
  let ?K = "length (concat (take W xss)) + ks ! W"
  have len: "length ks = length xss" using loc by (simp add: list_all2_lengthD)
  have locw: "np_argmax (xss ! w) = Inr (ks ! w)" if "w < length xss" for w
    using loc that by (simp add: list_all2_conv_all_nth)
  have ms: "?ms ! w = xss ! w ! (ks ! w)" if "w < length xss" for w
    using that len by simp
  note pW = np_argmax_first_max[OF W]
  have Wlt: "W < length xss" using pW len by simp
  note pk = np_argmax_first_max[OF locw[OF Wlt]]
  have Kin: "?K < length (concat xss)" and Kval: "concat xss ! ?K = xss ! W ! (ks ! W)"
    using concat_nth_shard[OF Wlt, of "ks ! W"] pk by simp_all
  have lenms: "length ?ms = length xss" using len by simp
  have msmax: "?ms ! w \<le> ?ms ! W" if "w < length xss" for w
  proof -
    have "?ms ! w \<in> set ?ms" using that lenms by (metis nth_mem)
    with pW show ?thesis by blast
  qed
  have le_shard_max: "xss ! w ! j \<le> ?ms ! W" if "w < length xss" "j < length (xss ! w)" for w j
  proof -
    have "xss ! w ! j \<le> xss ! w ! (ks ! w)"
      using np_argmax_first_max[OF locw[OF that(1)]] that(2) by simp
    also have "\<dots> = ?ms ! w" using ms[OF that(1)] by simp
    also have "\<dots> \<le> ?ms ! W" using msmax[OF that(1)] .
    finally show ?thesis .
  qed
  have upper: "\<forall>y \<in> set (concat xss). y \<le> concat xss ! ?K"
  proof
    fix y assume "y \<in> set (concat xss)"
    then obtain l where l: "l < length (concat xss)" "y = concat xss ! l"
      unfolding in_set_conv_nth by blast
    from concat_index_split[OF l(1)] obtain w j where
      wj: "w < length xss" "j < length (xss ! w)" "l = length (concat (take w xss)) + j" by blast
    have "y = xss ! w ! j" using l(2) wj concat_nth_shard[OF wj(1,2)] by simp
    then show "y \<le> concat xss ! ?K"
      using le_shard_max[OF wj(1,2)] Kval ms[OF Wlt] by simp
  qed
  have first: "\<forall>l < ?K. concat xss ! l < concat xss ! ?K"
  proof (intro allI impI)
    fix l assume lK: "l < ?K"
    with Kin have "l < length (concat xss)" by simp
    from concat_index_split[OF this] obtain w j where
      wj: "w < length xss" "j < length (xss ! w)" "l = length (concat (take w xss)) + j" by blast
    have val: "concat xss ! l = xss ! w ! j" using wj concat_nth_shard[OF wj(1,2)] by simp
    have notgt: "\<not> W < w"
    proof
      assume "W < w"
      from offset_next[OF this, of xss] wj(1)
      have "length (concat (take W xss)) + length (xss ! W) \<le> length (concat (take w xss))"
        by simp
      with pk wj(3) lK show False by simp
    qed
    show "concat xss ! l < concat xss ! ?K"
    proof (cases "w = W")
      case True
      with wj(3) lK have "j < ks ! W" by simp
      with pk have "xss ! W ! j < xss ! W ! (ks ! W)" by simp
      with True val Kval show ?thesis by simp
    next
      case False
      with notgt have wW: "w < W" by simp
      have "xss ! w ! j \<le> ?ms ! w"
        using np_argmax_first_max[OF locw[OF wj(1)]] wj(2) ms[OF wj(1)] by simp
      also have "\<dots> < ?ms ! W" using pW wW by blast
      finally show ?thesis using val Kval ms[OF Wlt] by simp
    qed
  qed
  have "np_argmax (concat xss) = Inr ?K"
    using Kin upper first by (rule np_argmax_unique)
  with Kval ms[OF Wlt] show ?thesis by simp
qed

subsection \<open>The workers' answers\<close>

lemma error_norms_concat: "error_norms en (concat Us) = concat (map (error_norms en) Us)"
  by (induction Us) (simp_all add: error_norms_def split: option.splits)

lemma length_error_norms: "length (error_norms en U) = length U"
  by (simp add: error_norms_def split: option.splits)

lemma offset_error_norms:
  "length (concat (take W (map (error_norms en) Us))) = length (concat (take W Us))"
proof (induction Us arbitrary: W)
  case Nil
  then show ?case by simp
next
  case (Cons U Us)
  then show ?case by (cases W) (simp_all add: length_error_norms)
qed

lemma pool_apply_total:
  "(\<forall>w \<in> set ws. \<exists>r. f w = Inr r) \<Longrightarrow> \<exists>rs. pool_apply f ws = Inr rs"
proof (induction ws)
  case Nil
  then show ?case by simp
next
  case (Cons w ws)
  then obtain r rs where "f w = Inr r" "pool_apply f ws = Inr rs" by auto
  then show ?case by simp
qed

lemma initialize_Inr:
  assumes "parallel_ei_greedy_initialize en U = Inr (w, m)"
  shows "data_U w = U
         \<and> np_argmax (error_norms en (data_U w)) = Inr (data_max_err_ind w)
         \<and> m = error_norms en (data_U w) ! data_max_err_ind w"
  using assms by (auto simp: parallel_ei_greedy_initialize_def Let_def split: sum.splits)

lemma initialize_total:
  assumes "U \<noteq> []"
  shows "\<exists>r. parallel_ei_greedy_initialize en U = Inr r"
proof -
  from assms have "error_norms en U \<noteq> []"
    using length_error_norms[of en U] by auto
  then obtain k where "np_argmax (error_norms en U) = Inr k"
    using np_argmax_nonempty by blast
  then show ?thesis by (simp add: parallel_ei_greedy_initialize_def Let_def)
qed

lemma update_total:
  assumes "data_U w \<noteq> []"
  shows "\<exists>r. parallel_ei_greedy_update en v d w = Inr r"
proof -
  from assms have "error_norms en (deflate d v (data_U w)) \<noteq> []"
    using length_error_norms[of en "deflate d v (data_U w)"] by (auto simp: deflate_def)
  then obtain k where "np_argmax (error_norms en (deflate d v (data_U w))) = Inr k"
    using np_argmax_nonempty by blast
  then show ?thesis by (simp add: parallel_ei_greedy_update_def Let_def)
qed

text \<open>
  What the coordinator learns from the workers' answers: the worker it picks, and the
  vector that worker holds as its worst, are the ones the sequential search finds in the
  whole array.
\<close>

lemma gathered_maximum:
  assumes ok: "\<forall>r \<in> set rs.
                 np_argmax (error_norms en (data_U (fst r))) = Inr (data_max_err_ind (fst r))
                 \<and> snd r = error_norms en (data_U (fst r)) ! data_max_err_ind (fst r)"
    and W: "np_argmax (map snd rs) = Inr W"
  shows "W < length rs
    \<and> (\<forall>w \<in> set (map fst rs). data_max_err_ind w < length (data_U w))
    \<and> np_argmax (error_norms en (concat (map data_U (map fst rs))))
        = Inr (length (concat (take W (map data_U (map fst rs))))
                + data_max_err_ind (map fst rs ! W))
    \<and> error_norms en (concat (map data_U (map fst rs)))
         ! (length (concat (take W (map data_U (map fst rs))))
                + data_max_err_ind (map fst rs ! W))
       = map snd rs ! W"
proof -
  let ?ws = "map fst rs"
  let ?xss = "map (error_norms en) (map data_U ?ws)"
  let ?ks = "map data_max_err_ind ?ws"
  have Wlt: "W < length rs" using np_argmax_less[OF W] by simp
  have inds: "\<forall>w \<in> set ?ws. data_max_err_ind w < length (data_U w)"
  proof
    fix w assume "w \<in> set ?ws"
    then obtain r where "r \<in> set rs" "w = fst r" by auto
    with ok have "np_argmax (error_norms en (data_U w)) = Inr (data_max_err_ind w)" by simp
    from np_argmax_less[OF this] show "data_max_err_ind w < length (data_U w)"
      by (simp add: length_error_norms)
  qed
  have loc: "list_all2 (\<lambda>xs k. np_argmax xs = Inr k) ?xss ?ks"
    using ok by (simp add: list_all2_conv_all_nth)
  have ms: "map2 (\<lambda>xs k. xs ! k) ?xss ?ks = map snd rs"
    using ok by (intro nth_equalityI) simp_all
  have ksW: "?ks ! W = data_max_err_ind (?ws ! W)" using Wlt by simp
  from np_argmax_concat[OF loc] W ms
  have "np_argmax (concat ?xss) = Inr (length (concat (take W ?xss)) + ?ks ! W)
        \<and> concat ?xss ! (length (concat (take W ?xss)) + ?ks ! W) = map snd rs ! W"
    by simp
  then have "np_argmax (error_norms en (concat (map data_U ?ws)))
        = Inr (length (concat (take W (map data_U ?ws))) + data_max_err_ind (?ws ! W))
      \<and> error_norms en (concat (map data_U ?ws))
         ! (length (concat (take W (map data_U ?ws))) + data_max_err_ind (?ws ! W))
        = map snd rs ! W"
    unfolding ksW error_norms_concat offset_error_norms .
  with Wlt inds show ?thesis by blast
qed

subsection \<open>One round of both loops\<close>

lemma stop_check_agree:
  assumes "same_run sp ss"
  shows "par_stop_check p e0 sp = stop_check p e0 ss"
proof -
  from assms have eqs: "interpolation_dofs ss = par_interpolation_dofs sp"
    "max_err ss = par_max_err sp"
    by (simp_all add: same_run_def)
  show ?thesis unfolding par_stop_check_def stop_check_def eqs by (rule refl)
qed

lemma same_run_vector:
  assumes "same_run sp ss"
  shows "max_err_ind ss < length (ERR ss)
    \<and> pool_apply_only parallel_ei_greedy_get_vector (par_max_err_ind sp) (distributed_data sp)
        = Inr (ERR ss ! max_err_ind ss)"
proof -
  let ?ws = "distributed_data sp"
  let ?W = "par_max_err_ind sp"
  let ?k = "data_max_err_ind (?ws ! ?W)"
  from assms have W: "?W < length ?ws"
    and all: "list_all (\<lambda>w. data_max_err_ind w < length (data_U w)) ?ws"
    and E: "ERR ss = concat (map data_U ?ws)"
    and K: "max_err_ind ss = length (concat (take ?W (map data_U ?ws))) + ?k"
    by (simp_all add: same_run_def)
  from all W have k: "?k < length (data_U (?ws ! ?W))"
    by (simp add: list_all_length)
  have "?W < length (map data_U ?ws)" "?k < length (map data_U ?ws ! ?W)"
    using W k by simp_all
  from concat_nth_shard[OF this] W E K
  have "max_err_ind ss < length (ERR ss)" "ERR ss ! max_err_ind ss = data_U (?ws ! ?W) ! ?k"
    by simp_all
  with W k show ?thesis
    by (simp add: pool_apply_only_def parallel_ei_greedy_get_vector_def)
qed

lemma update_agree:
  assumes R: "same_run sp ss"
  shows "\<exists>rs W'. pool_apply (parallel_ei_greedy_update en v d) (distributed_data sp) = Inr rs
      \<and> np_argmax (map snd rs) = Inr W'
      \<and> W' < length (map fst rs)
      \<and> list_all (\<lambda>w. data_max_err_ind w < length (data_U w)) (map fst rs)
      \<and> concat (map data_U (map fst rs)) = deflate d v (ERR ss)
      \<and> np_argmax (error_norms en (deflate d v (ERR ss)))
          = Inr (length (concat (take W' (map data_U (map fst rs))))
                  + data_max_err_ind (map fst rs ! W'))
      \<and> error_norms en (deflate d v (ERR ss))
           ! (length (concat (take W' (map data_U (map fst rs))))
                  + data_max_err_ind (map fst rs ! W'))
         = map snd rs ! W'"
proof -
  let ?ws = "distributed_data sp"
  from R have W: "par_max_err_ind sp < length ?ws"
    and all: "list_all (\<lambda>w. data_max_err_ind w < length (data_U w)) ?ws"
    and E: "ERR ss = concat (map data_U ?ws)"
    by (simp_all add: same_run_def)
  have "\<forall>w \<in> set ?ws. \<exists>r. parallel_ei_greedy_update en v d w = Inr r"
  proof
    fix w assume "w \<in> set ?ws"
    with all have "data_U w \<noteq> []" by (auto simp: list_all_iff)
    then show "\<exists>r. parallel_ei_greedy_update en v d w = Inr r" by (rule update_total)
  qed
  from pool_apply_total[OF this] obtain rs where
    rs: "pool_apply (parallel_ei_greedy_update en v d) ?ws = Inr rs" by blast
  note l2 = pool_apply_Inr[OF rs]
  have len: "length rs = length ?ws" using l2 by (simp add: list_all2_lengthD)
  have ok: "\<forall>r \<in> set rs.
                 np_argmax (error_norms en (data_U (fst r))) = Inr (data_max_err_ind (fst r))
                 \<and> snd r = error_norms en (data_U (fst r)) ! data_max_err_ind (fst r)"
  proof
    fix r assume "r \<in> set rs"
    then obtain i where i: "i < length rs" "r = rs ! i" by (auto simp: in_set_conv_nth)
    with l2 have "parallel_ei_greedy_update en v d (?ws ! i) = Inr (fst r, snd r)"
      by (simp add: list_all2_conv_all_nth)
    from update_Inr[OF this]
    show "np_argmax (error_norms en (data_U (fst r))) = Inr (data_max_err_ind (fst r))
                 \<and> snd r = error_norms en (data_U (fst r)) ! data_max_err_ind (fst r)"
      by blast
  qed
  from W len have "map snd rs \<noteq> []" by auto
  then obtain W' where W': "np_argmax (map snd rs) = Inr W'"
    using np_argmax_nonempty by blast
  have U': "concat (map data_U (map fst rs)) = deflate d v (ERR ss)"
    using update_all_shards[OF rs] E by (simp add: deflate_concat)
  from gathered_maximum[OF ok W'] U' rs W'
  show ?thesis by (auto simp: list_all_iff)
qed

lemma step_agree:
  assumes R: "same_run sp ss"
  shows "(\<exists>e. greedy_step p ss = Inl e \<and> par_greedy_step p sp = Inl e)
       \<or> (greedy_step p ss = Inr (Inl ss) \<and> par_greedy_step p sp = Inr (Inl sp))
       \<or> (\<exists>ss' sp'. greedy_step p ss = Inr (Inr ss') \<and> par_greedy_step p sp = Inr (Inr sp')
             \<and> same_run sp' ss')"
proof -
  let ?nv = "ERR ss ! max_err_ind ss"
  from same_run_vector[OF R] have ind: "\<not> length (ERR ss) \<le> max_err_ind ss"
    and get: "pool_apply_only parallel_ei_greedy_get_vector (par_max_err_ind sp)
                (distributed_data sp) = Inr ?nv"
    by simp_all
  from R have dofs: "par_interpolation_dofs sp = interpolation_dofs ss"
    and basis: "par_collateral_basis sp = collateral_basis ss"
    and errs: "par_max_errs sp = max_errs ss"
    and err: "par_max_err sp = max_err ss"
    by (simp_all add: same_run_def)
  show ?thesis
  proof (cases "amax ?nv")
    case (Inl e)
    have "greedy_step p ss = Inl e"
      using ind Inl by (simp add: greedy_step_def)
    moreover have "par_greedy_step p sp = Inl e"
      using get Inl by (simp add: par_greedy_step_def)
    ultimately show ?thesis by blast
  next
    case (Inr d)
    show ?thesis
    proof (cases "d \<in> set (interpolation_dofs ss) \<or> ?nv ! d = 0")
      case True
      have "greedy_step p ss = Inr (Inl ss)"
        using ind Inr True by (auto simp: greedy_step_def Let_def)
      moreover have "par_greedy_step p sp = Inr (Inl sp)"
        using get Inr True dofs by (auto simp: par_greedy_step_def Let_def)
      ultimately show ?thesis by blast
    next
      case False
      let ?v = "scal (1 / (?nv ! d)) ?nv"
      let ?U' = "deflate d ?v (ERR ss)"
      from update_agree[OF R, of "error_norm p" ?v d] obtain rs W' where
        rs: "pool_apply (parallel_ei_greedy_update (error_norm p) ?v d) (distributed_data sp)
               = Inr rs"
        and W': "np_argmax (map snd rs) = Inr W'" "W' < length (map fst rs)"
        and all: "list_all (\<lambda>w. data_max_err_ind w < length (data_U w)) (map fst rs)"
        and U': "concat (map data_U (map fst rs)) = ?U'"
        and K: "np_argmax (error_norms (error_norm p) ?U')
                 = Inr (length (concat (take W' (map data_U (map fst rs))))
                         + data_max_err_ind (map fst rs ! W'))"
        and Kv: "error_norms (error_norm p) ?U'
                   ! (length (concat (take W' (map data_U (map fst rs))))
                         + data_max_err_ind (map fst rs ! W'))
                 = map snd rs ! W'"
        by blast
      let ?K = "length (concat (take W' (map data_U (map fst rs))))
                         + data_max_err_ind (map fst rs ! W')"
      let ?ss' = "\<lparr>interpolation_dofs = interpolation_dofs ss @ [d],
                   collateral_basis = collateral_basis ss @ [?v],
                   max_errs = max_errs ss @ [max_err ss],
                   ERR = ?U', max_err_ind = ?K,
                   max_err = error_norms (error_norm p) ?U' ! ?K\<rparr>"
      let ?sp' = "\<lparr>par_interpolation_dofs = par_interpolation_dofs sp @ [d],
                   par_collateral_basis = par_collateral_basis sp @ [?v],
                   par_max_errs = par_max_errs sp @ [par_max_err sp],
                   distributed_data = map fst rs, par_max_err_ind = W',
                   par_max_err = map snd rs ! W'\<rparr>"
      have seq: "greedy_step p ss = Inr (Inr ?ss')"
        using ind Inr False K by (simp add: greedy_step_def Let_def)
      have par: "par_greedy_step p sp = Inr (Inr ?sp')"
        using get Inr False dofs rs W'(1) by (simp add: par_greedy_step_def Let_def)
      have "same_run ?sp' ?ss'"
        using dofs basis errs err W'(2) all U' Kv by (simp add: same_run_def)
      with seq par show ?thesis by blast
    qed
  qed
qed

text \<open>From states of the same run, both loops end alike.\<close>

lemma loop_agree:
  assumes "same_run sp ss"
  shows "(\<exists>e. ei_greedy_loop p e0 ss = Inl e \<and> parallel_ei_greedy_loop p e0 sp = Inl e)
       \<or> (\<exists>ss' sp'. ei_greedy_loop p e0 ss = Inr ss' \<and> parallel_ei_greedy_loop p e0 sp = Inr sp'
             \<and> same_run sp' ss')"
  using assms
proof (induction p e0 ss arbitrary: sp rule: ei_greedy_loop.induct)
  case (1 p e0 ss)
  note R = "1.prems"
  note sc = stop_check_agree[OF R, of p e0]
  show ?case
  proof (cases "stop_check p e0 ss")
    case True
    with sc R show ?thesis
      by (simp add: ei_greedy_loop.simps[of p e0 ss] parallel_ei_greedy_loop.simps[of p e0 sp])
  next
    case False
    from step_agree[OF R, of p] show ?thesis
    proof (elim disjE exE conjE)
      fix e assume "greedy_step p ss = Inl e" "par_greedy_step p sp = Inl e"
      with False sc show ?thesis
        by (simp add: ei_greedy_loop.simps[of p e0 ss] parallel_ei_greedy_loop.simps[of p e0 sp])
    next
      assume "greedy_step p ss = Inr (Inl ss)" "par_greedy_step p sp = Inr (Inl sp)"
      with False sc R show ?thesis
        by (simp add: ei_greedy_loop.simps[of p e0 ss] parallel_ei_greedy_loop.simps[of p e0 sp])
    next
      fix ss' sp'
      assume st: "greedy_step p ss = Inr (Inr ss')" "par_greedy_step p sp = Inr (Inr sp')"
        and R': "same_run sp' ss'"
      have "ei_greedy_loop p e0 ss = ei_greedy_loop p e0 ss'"
        using False st(1) by (simp add: ei_greedy_loop.simps[of p e0 ss])
      moreover have "parallel_ei_greedy_loop p e0 sp = parallel_ei_greedy_loop p e0 sp'"
        using False sc st(2) by (simp add: parallel_ei_greedy_loop.simps[of p e0 sp])
      ultimately show ?thesis using "1.IH"[OF False st(1) refl R'] by simp
    qed
  qed
qed

lemma results_agree: "same_run sp ss \<Longrightarrow> par_result sp = ei_result ss"
  by (simp add: same_run_def par_result_def ei_result_def)

text \<open>
  When every worker holds at least one vector, the distributed algorithm returns what the
  sequential one returns on the concatenation of the shards: the same DOFs in the same
  order, the same basis and the same diagnostics.
\<close>

lemma parallel_ei_greedy_agrees:
  assumes ne: "shards \<noteq> []" and sh: "[] \<notin> set shards"
  shows "parallel_ei_greedy p shards = ei_greedy p (concat shards)"
proof -
  let ?en = "error_norm p"
  have "\<forall>U \<in> set shards. \<exists>r. parallel_ei_greedy_initialize ?en U = Inr r"
    using sh initialize_total by metis
  from pool_apply_total[OF this] obtain rs where
    rs: "pool_apply (parallel_ei_greedy_initialize ?en) shards = Inr rs" by blast
  note l2 = pool_apply_Inr[OF rs]
  have len: "length rs = length shards" using l2 by (simp add: list_all2_lengthD)
  have each: "data_U (fst (rs ! i)) = shards ! i
        \<and> np_argmax (error_norms ?en (data_U (fst (rs ! i)))) = Inr (data_max_err_ind (fst (rs ! i)))
        \<and> snd (rs ! i) = error_norms ?en (data_U (fst (rs ! i))) ! data_max_err_ind (fst (rs ! i))"
    if "i < length rs" for i
  proof -
    from l2 that have "parallel_ei_greedy_initialize ?en (shards ! i) = Inr (fst (rs ! i), snd (rs ! i))"
      by (simp add: list_all2_conv_all_nth)
    from initialize_Inr[OF this] show ?thesis by blast
  qed
  have ok: "\<forall>r \<in> set rs.
                 np_argmax (error_norms ?en (data_U (fst r))) = Inr (data_max_err_ind (fst r))
                 \<and> snd r = error_norms ?en (data_U (fst r)) ! data_max_err_ind (fst r)"
  proof
    fix r assume "r \<in> set rs"
    then obtain i where "i < length rs" "r = rs ! i" unfolding in_set_conv_nth by blast
    with each[of i]
    show "np_argmax (error_norms ?en (data_U (fst r))) = Inr (data_max_err_ind (fst r))
                 \<and> snd r = error_norms ?en (data_U (fst r)) ! data_max_err_ind (fst r)"
      by blast
  qed
  have U: "map data_U (map fst rs) = shards"
    using each len by (intro nth_equalityI) simp_all
  from ne len have "map snd rs \<noteq> []" by auto
  then obtain W where W: "np_argmax (map snd rs) = Inr W"
    using np_argmax_nonempty by blast
  note g = gathered_maximum[OF ok W, unfolded U]
  from g
  have Wlt: "W < length rs"
    and inds: "\<forall>w \<in> set (map fst rs). data_max_err_ind w < length (data_U w)"
    and K: "np_argmax (error_norms ?en (concat shards))
             = Inr (length (concat (take W shards)) + data_max_err_ind (map fst rs ! W))"
    and Kv: "error_norms ?en (concat shards)
               ! (length (concat (take W shards)) + data_max_err_ind (map fst rs ! W))
             = map snd rs ! W"
    by blast+
  let ?K = "length (concat (take W shards)) + data_max_err_ind (map fst rs ! W)"
  let ?ss = "\<lparr>interpolation_dofs = [], collateral_basis = [], max_errs = [],
               ERR = concat shards, max_err_ind = ?K,
               max_err = error_norms ?en (concat shards) ! ?K\<rparr>"
  let ?sp = "\<lparr>par_interpolation_dofs = [], par_collateral_basis = [],
               par_max_errs = [], distributed_data = map fst rs,
               par_max_err_ind = W, par_max_err = map snd rs ! W\<rparr>"
  have R: "same_run ?sp ?ss"
    using Wlt inds U Kv by (simp add: same_run_def list_all_iff)
  have seq: "ei_greedy p (concat shards)
      = (case ei_greedy_loop p (error_norms ?en (concat shards) ! ?K) ?ss of
           Inl e \<Rightarrow> Inl e | Inr s \<Rightarrow> Inr (ei_result s))"
    using K by (simp add: ei_greedy_def Let_def)
  have par: "parallel_ei_greedy p shards
      = (case parallel_ei_greedy_loop p (map snd rs ! W) ?sp of
           Inl e \<Rightarrow> Inl e | Inr s \<Rightarrow> Inr (par_result s))"
    using ne rs W by (simp add: parallel_ei_greedy_def pool_apply_only_def Let_def)
  from loop_agree[OF R, of p "map snd rs ! W"] Kv results_agree
  show ?thesis unfolding seq par by auto
qed

subsection \<open>Degenerate selection in the distributed loop\<close>

lemma par_greedy_step_break: "par_greedy_step p s = Inr (Inl s') \<Longrightarrow> s' = s"
  by (auto simp: par_greedy_step_def Let_def split: if_splits sum.splits)

lemma parallel_loop_invariant:
  assumes "parallel_ei_greedy_loop p e0 s = Inr s'"
    and "P s"
    and "\<And>s s'. P s \<Longrightarrow> par_greedy_step p s = Inr (Inr s') \<Longrightarrow> P s'"
  shows "P s'"
  using assms
proof (induction p e0 s rule: parallel_ei_greedy_loop.induct)
  case (1 p e0 s)
  note loop = parallel_ei_greedy_loop.simps[of p e0 s]
  show ?case
  proof (cases "par_stop_check p e0 s")
    case True
    with "1.prems"(1,2) show ?thesis by (simp add: loop)
  next
    case False
    show ?thesis
    proof (cases "par_greedy_step p s")
      case (Inl e)
      with False "1.prems"(1) show ?thesis by (simp add: loop)
    next
      case (Inr r)
      show ?thesis
      proof (cases r)
        case (Inl sb)
        with Inr False "1.prems"(1,2) par_greedy_step_break[of p s sb] show ?thesis
          by (simp add: loop)
      next
        case (Inr sn)
        with \<open>par_greedy_step p s = Inr r\<close> have e: "par_greedy_step p s = Inr (Inr sn)" by simp
        have "P sn" using "1.prems"(3)[OF "1.prems"(2) e] .
        moreover have "parallel_ei_greedy_loop p e0 sn = Inr s'"
          using "1.prems"(1) False e by (simp add: loop)
        ultimately show ?thesis using "1.IH"[OF False e refl] "1.prems"(3) by blast
      qed
    qed
  qed
qed

lemma parallel_distinct:
  assumes "parallel_ei_greedy p shards = Inr (dofs, basis, d)"
  shows "distinct dofs"
proof -
  from assms obtain e0 s0 s where
    loop: "parallel_ei_greedy_loop p e0 s0 = Inr s" and s0: "par_interpolation_dofs s0 = []"
    and r: "dofs = par_interpolation_dofs s"
    by (auto simp: parallel_ei_greedy_def par_result_def Let_def split: sum.splits)
  have "distinct (par_interpolation_dofs s)"
  proof (rule parallel_loop_invariant[OF loop, where P = "\<lambda>s. distinct (par_interpolation_dofs s)"])
    show "distinct (par_interpolation_dofs s0)" using s0 by simp
  next
    fix s s' :: par_state
    assume "distinct (par_interpolation_dofs s)" "par_greedy_step p s = Inr (Inr s')"
    then show "distinct (par_interpolation_dofs s')"
      using par_greedy_step_next[of p s s'] by auto
  qed
  with r show ?thesis by simp
qed

lemma parallel_degenerate_stop:
  assumes "\<not> par_stop_check p e0 s"
    "pool_apply_only parallel_ei_greedy_get_vector (par_max_err_ind s) (distributed_data s)
       = Inr new_vec"
    "amax new_vec = Inr new_dof"
    "new_dof \<in> set (par_interpolation_dofs s) \<or> new_vec ! new_dof = 0"
  shows "parallel_ei_greedy_loop p e0 s = Inr s"
proof -
  have "par_greedy_step p s = Inr (Inl s)"
    using assms by (auto simp: par_greedy_step_def Let_def)
  with assms(1) show ?thesis by (simp add: parallel_ei_greedy_loop.simps[of p e0 s])
qed

section \<open>Properties of DEIM\<close>

lemma deim_loop_props:
  assumes "deim_loop solve basis [k..<n] (dofs, M) = Inr (dofs', M')"
    and "length dofs = k" and "distinct dofs" and "k \<le> n"
    and "M = interpolation_matrix_of (take k basis) dofs"
  shows "distinct dofs' \<and> length dofs' \<le> n \<and> k \<le> length dofs'
         \<and> M' = interpolation_matrix_of (take (length dofs') basis) dofs'
         \<and> (length dofs' < n \<longrightarrow>
              (\<exists>r d. deim_residual solve basis dofs' M' (length dofs') = Inr r
                     \<and> amax r = Inr d \<and> d \<in> set dofs'))"
  using assms
proof (induction "n - k" arbitrary: k dofs M)
  case 0
  then show ?case by auto
next
  case (Suc m)
  then have kn: "k < n" by linarith
  then have upt: "[k..<n] = k # [Suc k..<n]" by (simp add: upt_conv_Cons)
  from Suc.prems(1) upt obtain r where r: "deim_residual solve basis dofs M k = Inr r"
    by (cases "deim_residual solve basis dofs M k") auto
  from Suc.prems(1) upt r obtain d where d: "amax r = Inr d"
    by (cases "amax r") auto
  show ?case
  proof (cases "d \<in> set dofs")
    case True
    with Suc.prems(1) upt r d have "dofs' = dofs" "M' = M" by auto
    with True r d kn Suc.prems show ?thesis by auto
  next
    case False
    let ?dofs = "dofs @ [d]"
    let ?M = "interpolation_matrix_of (take (length ?dofs) basis) ?dofs"
    from Suc.prems(1) upt r d False
    have rec: "deim_loop solve basis [Suc k..<n] (?dofs, ?M) = Inr (dofs', M')"
      by (simp add: Let_def)
    have "m = n - Suc k" using Suc.hyps(2) by linarith
    from Suc.hyps(1)[OF this rec] False Suc.prems(2,3) kn
    show ?thesis by auto
  qed
qed

lemma deim_props:
  assumes "deim pod solve U = Inr (dofs, basis', sv)"
  shows "length dofs = length basis' \<and> distinct dofs
         \<and> basis' = take (length dofs) (fst (pod U)) \<and> sv = snd (pod U)
         \<and> length dofs \<le> length (fst (pod U))
         \<and> (length dofs < length (fst (pod U)) \<longrightarrow>
              (\<exists>r d. deim_residual solve (fst (pod U)) dofs
                        (interpolation_matrix_of (take (length dofs) (fst (pod U))) dofs)
                        (length dofs) = Inr r
                     \<and> amax r = Inr d \<and> d \<in> set dofs))"
proof -
  obtain basis svals where pod: "pod U = (basis, svals)" by (cases "pod U")
  from assms pod obtain M where
    loop: "deim_loop solve basis [0..<length basis] ([], []) = Inr (dofs, M)"
    and res: "basis' = (if length dofs < length basis then take (length dofs) basis else basis)"
             "sv = svals"
    by (auto simp: deim_def split: sum.splits)
  have "[] = interpolation_matrix_of (take 0 basis) []"
    by (simp add: interpolation_matrix_of_def)
  from deim_loop_props[OF loop _ _ _ this] res pod
  show ?thesis by auto
qed

lemma deim_loop_origin:
  assumes "deim_loop solve basis [k..<n] (dofs, M) = Inr (dofs', M')"
    and "length dofs = k" and "k \<le> n"
    and "M = interpolation_matrix_of (take k basis) dofs"
  shows "take k dofs' = dofs
         \<and> (\<forall>i. k \<le> i \<and> i < length dofs' \<longrightarrow>
              (\<exists>r. deim_residual solve basis (take i dofs')
                       (interpolation_matrix_of (take i basis) (take i dofs')) i = Inr r
                    \<and> amax r = Inr (dofs' ! i)))"
  using assms
proof (induction "n - k" arbitrary: k dofs M)
  case 0
  then show ?case by auto
next
  case (Suc m)
  then have kn: "k < n" by linarith
  then have upt: "[k..<n] = k # [Suc k..<n]" by (simp add: upt_conv_Cons)
  from Suc.prems(1) upt obtain r where r: "deim_residual solve basis dofs M k = Inr r"
    by (cases "deim_residual solve basis dofs M k") auto
  from Suc.prems(1) upt r obtain d where d: "amax r = Inr d"
    by (cases "amax r") auto
  show ?case
  proof (cases "d \<in> set dofs")
    case True
    with Suc.prems(1) upt r d have "dofs' = dofs" "M' = M" by auto
    with Suc.prems show ?thesis by auto
  next
    case False
    let ?dofs = "dofs @ [d]"
    let ?M = "interpolation_matrix_of (take (length ?dofs) basis) ?dofs"
    from Suc.prems(1) upt r d False
    have rec: "deim_loop solve basis [Suc k..<n] (?dofs, ?M) = Inr (dofs', M')"
      by (simp add: Let_def)
    have m: "m = n - Suc k" using Suc.hyps(2) by linarith
    have len: "length ?dofs = Suc k" using Suc.prems(2) by simp
    have M: "?M = interpolation_matrix_of (take (Suc k) basis) ?dofs" using len by simp
    from Suc.hyps(1)[OF m rec len _ M] kn
    have tk: "take (Suc k) dofs' = ?dofs"
      and later: "\<forall>i. Suc k \<le> i \<and> i < length dofs' \<longrightarrow>
              (\<exists>r. deim_residual solve basis (take i dofs')
                       (interpolation_matrix_of (take i basis) (take i dofs')) i = Inr r
                    \<and> amax r = Inr (dofs' ! i))"
      by auto
    have "take k (take (Suc k) dofs') = take k ?dofs" using tk by simp
    then have tk0: "take k dofs' = dofs" using Suc.prems(2) by (simp add: min_def)
    have "dofs' ! k = (take (Suc k) dofs') ! k" by simp
    then have dk: "dofs' ! k = d" using tk Suc.prems(2) by (simp add: nth_append)
    have here: "\<exists>r. deim_residual solve basis (take k dofs')
                       (interpolation_matrix_of (take k basis) (take k dofs')) k = Inr r
                    \<and> amax r = Inr (dofs' ! k)"
      using r d tk0 dk Suc.prems(4) by auto
    show ?thesis
    proof (intro conjI allI impI)
      show "take k dofs' = dofs" by (rule tk0)
    next
      fix i assume i: "k \<le> i \<and> i < length dofs'"
      show "\<exists>r. deim_residual solve basis (take i dofs')
                       (interpolation_matrix_of (take i basis) (take i dofs')) i = Inr r
                    \<and> amax r = Inr (dofs' ! i)"
      proof (cases "i = k")
        case True
        with here show ?thesis by simp
      next
        case False
        with i have "Suc k \<le> i \<and> i < length dofs'" by auto
        with later show ?thesis by blast
      qed
    qed
  qed
qed

lemma deim_origin:
  assumes "deim pod solve U = Inr (dofs, basis', sv)" and "i < length dofs"
  shows "\<exists>r. deim_residual solve (fst (pod U)) (take i dofs)
                (interpolation_matrix_of (take i (fst (pod U))) (take i dofs)) i = Inr r
             \<and> amax r = Inr (dofs ! i)"
proof -
  obtain basis svals where pod: "pod U = (basis, svals)" by (cases "pod U")
  from assms pod obtain M where
    loop: "deim_loop solve basis [0..<length basis] ([], []) = Inr (dofs, M)"
    by (auto simp: deim_def split: sum.splits)
  have "[] = interpolation_matrix_of (take 0 basis) []"
    by (simp add: interpolation_matrix_of_def)
  from deim_loop_origin[OF loop _ _ this] assms(2) pod
  show ?thesis by auto
qed

subsection \<open>Worked examples\<close>

lemmas ei_eval = ei_greedy_def error_norms_def np_argmax_def ei_greedy_loop.simps stop_check_def
  greedy_step_def amax_def scal_def deflate_def axpy1_def Let_def ei_result_def
  triangularity_errs_of_def interpolation_matrix_of_def upper_abs_def rel_err_le_def
  l2_norm1_def upt_rec

lemma sqrt_25: "sqrt 25 = 5"
  by (rule real_sqrt_unique) simp_all

lemma sqrt_36: "sqrt 36 = 6"
  by (rule real_sqrt_unique) simp_all

text \<open>
  Three vectors in dimension four, Euclidean norm, no tolerance and no bound on the number
  of DOFs: three rounds are accepted, and the fourth stops on a repeated DOF.
\<close>

lemma ei_greedy_example:
  "ei_greedy \<lparr>error_norm = None, atol = None, rtol = None, max_interpolation_dofs = None\<rparr>
      [[4, 0, 3, 0], [4, 0, -3, 0], [0, 0, 0, 1]]
   = Inr ([0, 2, 3], [[1, 0, 3 / 4, 0], [0, 0, 1, 0], [0, 0, 0, 1]],
          \<lparr>errors = [5, 6, 1], triangularity_errors = [0, 0, 0]\<rparr>)"
  by (simp add: ei_eval sqrt_25 sqrt_36)


text \<open>The same three vectors on two workers, and the empty array on one worker.\<close>

lemma parallel_ei_greedy_example:
  "parallel_ei_greedy
      \<lparr>error_norm = None, atol = None, rtol = None, max_interpolation_dofs = None\<rparr>
      [[[4, 0, 3, 0], [4, 0, -3, 0]], [[0, 0, 0, 1]]]
   = Inr ([0, 2, 3], [[1, 0, 3 / 4, 0], [0, 0, 1, 0], [0, 0, 0, 1]],
          \<lparr>errors = [5, 6, 1], triangularity_errors = [0, 0, 0]\<rparr>)"
  using parallel_ei_greedy_agrees
    [of "[[[4, 0, 3, 0], [4, 0, -3, 0]], [[0, 0, 0, 1]]]"
        "\<lparr>error_norm = None, atol = None, rtol = None, max_interpolation_dofs = None\<rparr>"]
    ei_greedy_example
  by simp

lemma parallel_empty: "parallel_ei_greedy p [[]] = Inl ValueError"
  by (simp add: parallel_ei_greedy_def pool_apply_only_def parallel_ei_greedy_initialize_def
      error_norms_def np_argmax_def split: option.splits)

lemmas deim_eval = deim_def deim_residual_def lincomb_def amax_def np_argmax_def
  interpolation_matrix_of_def Let_def upt_rec

text \<open>
  A POD routine that hands back a null second mode: the residual of that mode vanishes,
  its largest entry is found at DOF 0 again, and the basis is cut to one vector.
\<close>

lemma deim_example:
  "deim (\<lambda>U. ([[1, 0, 0], [0, 0, 0]], [1, 0])) cramer_solve [[2, 0, 0], [3, 0, 0]]
   = Inr ([0], [[1, 0, 0]], [1, 0])"
  by (simp add: deim_eval)

lemma deim_example_full:
  "deim (\<lambda>U. ([[0, 1], [1, 0]], [2, 1])) cramer_solve [[0, 2], [1, 0]]
   = Inr ([1, 0], [[0, 1], [1, 0]], [2, 1])"
  by (simp add: deim_eval)


section \<open>The claims\<close>

text \<open>
  C1 fails on a distributed array with an empty shard. One vector on a pool of two workers:
  worker 0 holds the vector, worker 1 holds nothing. The sequential algorithm returns one
  DOF; in the distributed one \<open>_parallel_ei_greedy_initialize\<close> takes \<open>np.argmax\<close> of
  the empty norm array of worker 1 and raises ValueError.
\<close>

theorem parallel_ei_greedy_empty_shard:
  "ei_greedy \<lparr>error_norm = None, atol = None, rtol = None, max_interpolation_dofs = None\<rparr>
      (concat [[[1, 0]], []])
     = Inr ([0], [[1, 0]], \<lparr>errors = [1], triangularity_errors = [0]\<rparr>)
   \<and> parallel_ei_greedy
       \<lparr>error_norm = None, atol = None, rtol = None, max_interpolation_dofs = None\<rparr>
       [[[1, 0]], []]
     = Inl ValueError"
  by (simp add: ei_eval parallel_ei_greedy_def pool_apply_only_def
      parallel_ei_greedy_initialize_def)

text \<open>
  C2, as the code has it. On an empty VectorArray \<open>ei_greedy\<close> does not reach the stopping
  checks of its loop: the norms form an empty array and \<open>np.argmax\<close> raises ValueError
  before the loop, whatever the parameters, in the sequential code and in the distributed
  code on one worker. The empty result (no DOFs, empty basis, no errors) is what a non-empty
  array gives with \<open>max_interpolation_dofs = 0\<close>.
\<close>

theorem ei_greedy_empty_input:
  "ei_greedy p [] = Inl ValueError
   \<and> parallel_ei_greedy p [[]] = Inl ValueError
   \<and> (U \<noteq> [] \<and> max_interpolation_dofs p = Some 0 \<longrightarrow>
        ei_greedy p U = Inr ([], [], \<lparr>errors = [], triangularity_errors = []\<rparr>))"
  using ei_empty[of p] parallel_empty[of p] ei_stop_at_once[of U p 0] by simp

theorem ei_greedy_empty_input_witness:
  "ei_greedy \<lparr>error_norm = None, atol = None, rtol = None, max_interpolation_dofs = Some 0\<rparr> []
     = Inl ValueError
   \<and> [[1, 2]] \<noteq> ([] :: vector_array)
   \<and> max_interpolation_dofs
        \<lparr>error_norm = None, atol = None, rtol = None, max_interpolation_dofs = Some 0\<rparr> = Some 0
   \<and> ei_greedy \<lparr>error_norm = None, atol = None, rtol = None, max_interpolation_dofs = Some 0\<rparr>
        [[1, 2]] = Inr ([], [], \<lparr>errors = [], triangularity_errors = []\<rparr>)"
  using ei_greedy_empty_input
    [of "\<lparr>error_norm = None, atol = None, rtol = None, max_interpolation_dofs = Some 0\<rparr>" "[[1, 2]]"]
  by simp

text \<open>
  C2 as stated fails: on the empty VectorArray, with every stopping criterion armed
  (\<open>atol = 0\<close>, \<open>rtol = 0\<close>, \<open>max_interpolation_dofs = 0\<close>), \<open>ei_greedy\<close> raises, in
  the sequential code and in the distributed code on a pool of one worker.
\<close>

theorem ei_greedy_empty_input_counterexample:
  "ei_greedy \<lparr>error_norm = None, atol = Some 0, rtol = Some 0, max_interpolation_dofs = Some 0\<rparr> []
     = Inl ValueError
   \<and> parallel_ei_greedy
       \<lparr>error_norm = None, atol = Some 0, rtol = Some 0, max_interpolation_dofs = Some 0\<rparr> [[]]
     = Inl ValueError"
  using ei_empty parallel_empty by simp

text \<open>
  C3. Whenever \<open>ei_greedy\<close> or \<open>deim\<close> returns, the returned interpolation DOFs and the
  returned collateral basis have the same length.
\<close>

theorem dofs_and_basis_same_length:
  "(ei_greedy p U = Inr (dofs, basis, d) \<longrightarrow> length dofs = length basis)
   \<and> (deim pod solve U' = Inr (dofs', basis', svals) \<longrightarrow> length dofs' = length basis')"
  using ei_lengths[of p U dofs basis d] deim_props[of pod solve U' dofs' basis' svals] by simp

theorem dofs_and_basis_same_length_witness:
  "ei_greedy \<lparr>error_norm = None, atol = None, rtol = None, max_interpolation_dofs = None\<rparr>
      [[4, 0, 3, 0], [4, 0, -3, 0], [0, 0, 0, 1]]
   = Inr ([0, 2, 3], [[1, 0, 3 / 4, 0], [0, 0, 1, 0], [0, 0, 0, 1]],
          \<lparr>errors = [5, 6, 1], triangularity_errors = [0, 0, 0]\<rparr>)
   \<and> length [0, 2, 3 :: nat] = length [[1, 0, 3 / 4, 0], [0, 0, 1, 0], [0, 0, 0, 1 :: real]]
   \<and> deim (\<lambda>U. ([[1, 0, 0], [0, 0, 0]], [1, 0])) cramer_solve [[2, 0, 0], [3, 0, 0]]
       = Inr ([0], [[1, 0, 0]], [1, 0])
   \<and> length [0 :: nat] = length [[1, 0, 0 :: real]]"
  using dofs_and_basis_same_length
    [of "\<lparr>error_norm = None, atol = None, rtol = None, max_interpolation_dofs = None\<rparr>"
        "[[4, 0, 3, 0], [4, 0, -3, 0], [0, 0, 0, 1]]" "[0, 2, 3]"
        "[[1, 0, 3 / 4, 0], [0, 0, 1, 0], [0, 0, 0, 1]]"
        "\<lparr>errors = [5, 6, 1], triangularity_errors = [0, 0, 0]\<rparr>"
        "\<lambda>U. ([[1, 0, 0], [0, 0, 0]], [1, 0])" cramer_solve "[[2, 0, 0], [3, 0, 0]]"
        "[0]" "[[1, 0, 0]]" "[1, 0]"]
    ei_greedy_example deim_example
  by simp

text \<open>
  C4. A degenerate selection is not an error, in the sequential and in the distributed
  loop alike: when the DOF found for the worst vector was selected before, or the vector
  vanishes there, the round leaves the state as it is and the loop returns it. So the DOFs
  that \<open>ei_greedy\<close> returns are pairwise distinct.
\<close>

theorem degenerate_selection_stops:
  "(ei_greedy p U = Inr (dofs, basis, d) \<longrightarrow> distinct dofs)
   \<and> (\<not> stop_check p e0 s \<and> max_err_ind s < length (ERR s)
        \<and> amax (ERR s ! max_err_ind s) = Inr new_dof
        \<and> (new_dof \<in> set (interpolation_dofs s) \<or> ERR s ! max_err_ind s ! new_dof = 0)
      \<longrightarrow> ei_greedy_loop p e0 s = Inr s)
   \<and> (parallel_ei_greedy p shards = Inr (pdofs, pbasis, pd) \<longrightarrow> distinct pdofs)
   \<and> (\<not> par_stop_check p e0 sp
        \<and> pool_apply_only parallel_ei_greedy_get_vector (par_max_err_ind sp)
             (distributed_data sp) = Inr new_vec
        \<and> amax new_vec = Inr pdof
        \<and> (pdof \<in> set (par_interpolation_dofs sp) \<or> new_vec ! pdof = 0)
      \<longrightarrow> parallel_ei_greedy_loop p e0 sp = Inr sp)"
  using ei_distinct[of p U dofs basis d] degenerate_stop[of p e0 s new_dof]
    parallel_distinct[of p shards pdofs pbasis pd]
    parallel_degenerate_stop[of p e0 sp new_vec pdof]
  by blast

theorem degenerate_selection_stops_witness:
  "ei_greedy \<lparr>error_norm = None, atol = None, rtol = None, max_interpolation_dofs = None\<rparr>
      [[4, 0, 3, 0], [4, 0, -3, 0], [0, 0, 0, 1]]
   = Inr ([0, 2, 3], [[1, 0, 3 / 4, 0], [0, 0, 1, 0], [0, 0, 0, 1]],
          \<lparr>errors = [5, 6, 1], triangularity_errors = [0, 0, 0]\<rparr>)
   \<and> distinct [0, 2, 3 :: nat]
   \<and> \<not> stop_check \<lparr>error_norm = None, atol = None, rtol = None, max_interpolation_dofs = None\<rparr> 5
         \<lparr>interpolation_dofs = [0, 2, 3],
          collateral_basis = [[1, 0, 3 / 4, 0], [0, 0, 1, 0], [0, 0, 0, 1]],
          max_errs = [5, 6, 1], ERR = [[0, 0, 0, 0], [0, 0, 0, 0], [0, 0, 0, 0]],
          max_err_ind = 0, max_err = 0\<rparr>
   \<and> amax [0, 0, 0, 0] = Inr 0
   \<and> 0 \<in> set [0, 2, 3 :: nat]
   \<and> ei_greedy_loop \<lparr>error_norm = None, atol = None, rtol = None, max_interpolation_dofs = None\<rparr> 5
         \<lparr>interpolation_dofs = [0, 2, 3],
          collateral_basis = [[1, 0, 3 / 4, 0], [0, 0, 1, 0], [0, 0, 0, 1]],
          max_errs = [5, 6, 1], ERR = [[0, 0, 0, 0], [0, 0, 0, 0], [0, 0, 0, 0]],
          max_err_ind = 0, max_err = 0\<rparr>
       = Inr \<lparr>interpolation_dofs = [0, 2, 3],
          collateral_basis = [[1, 0, 3 / 4, 0], [0, 0, 1, 0], [0, 0, 0, 1]],
          max_errs = [5, 6, 1], ERR = [[0, 0, 0, 0], [0, 0, 0, 0], [0, 0, 0, 0]],
          max_err_ind = 0, max_err = 0\<rparr>
   \<and> parallel_ei_greedy
        \<lparr>error_norm = None, atol = None, rtol = None, max_interpolation_dofs = None\<rparr>
        [[[4, 0, 3, 0], [4, 0, -3, 0]], [[0, 0, 0, 1]]]
     = Inr ([0, 2, 3], [[1, 0, 3 / 4, 0], [0, 0, 1, 0], [0, 0, 0, 1]],
            \<lparr>errors = [5, 6, 1], triangularity_errors = [0, 0, 0]\<rparr>)
   \<and> pool_apply_only parallel_ei_greedy_get_vector 0
        [\<lparr>data_U = [[0, 0, 0, 0], [0, 0, 0, 0]], data_max_err_ind = 0\<rparr>,
         \<lparr>data_U = [[0, 0, 0, 0]], data_max_err_ind = 0\<rparr>] = Inr [0, 0, 0, 0]
   \<and> parallel_ei_greedy_loop
        \<lparr>error_norm = None, atol = None, rtol = None, max_interpolation_dofs = None\<rparr> 5
        \<lparr>par_interpolation_dofs = [0, 2, 3],
         par_collateral_basis = [[1, 0, 3 / 4, 0], [0, 0, 1, 0], [0, 0, 0, 1]],
         par_max_errs = [5, 6, 1],
         distributed_data =
           [\<lparr>data_U = [[0, 0, 0, 0], [0, 0, 0, 0]], data_max_err_ind = 0\<rparr>,
            \<lparr>data_U = [[0, 0, 0, 0]], data_max_err_ind = 0\<rparr>],
         par_max_err_ind = 0, par_max_err = 0\<rparr>
       = Inr \<lparr>par_interpolation_dofs = [0, 2, 3],
         par_collateral_basis = [[1, 0, 3 / 4, 0], [0, 0, 1, 0], [0, 0, 0, 1]],
         par_max_errs = [5, 6, 1],
         distributed_data =
           [\<lparr>data_U = [[0, 0, 0, 0], [0, 0, 0, 0]], data_max_err_ind = 0\<rparr>,
            \<lparr>data_U = [[0, 0, 0, 0]], data_max_err_ind = 0\<rparr>],
         par_max_err_ind = 0, par_max_err = 0\<rparr>"
  using degenerate_selection_stops
    [of "\<lparr>error_norm = None, atol = None, rtol = None, max_interpolation_dofs = None\<rparr>"
        "[[4, 0, 3, 0], [4, 0, -3, 0], [0, 0, 0, 1]]" "[0, 2, 3]"
        "[[1, 0, 3 / 4, 0], [0, 0, 1, 0], [0, 0, 0, 1]]"
        "\<lparr>errors = [5, 6, 1], triangularity_errors = [0, 0, 0]\<rparr>"
        5
        "\<lparr>interpolation_dofs = [0, 2, 3],
          collateral_basis = [[1, 0, 3 / 4, 0], [0, 0, 1, 0], [0, 0, 0, 1]],
          max_errs = [5, 6, 1], ERR = [[0, 0, 0, 0], [0, 0, 0, 0], [0, 0, 0, 0]],
          max_err_ind = 0, max_err = 0\<rparr>" 0
        "[[[4, 0, 3, 0], [4, 0, -3, 0]], [[0, 0, 0, 1]]]" "[0, 2, 3]"
        "[[1, 0, 3 / 4, 0], [0, 0, 1, 0], [0, 0, 0, 1]]"
        "\<lparr>errors = [5, 6, 1], triangularity_errors = [0, 0, 0]\<rparr>"
        "\<lparr>par_interpolation_dofs = [0, 2, 3],
         par_collateral_basis = [[1, 0, 3 / 4, 0], [0, 0, 1, 0], [0, 0, 0, 1]],
         par_max_errs = [5, 6, 1],
         distributed_data =
           [\<lparr>data_U = [[0, 0, 0, 0], [0, 0, 0, 0]], data_max_err_ind = 0\<rparr>,
            \<lparr>data_U = [[0, 0, 0, 0]], data_max_err_ind = 0\<rparr>],
         par_max_err_ind = 0, par_max_err = 0\<rparr>" "[0, 0, 0, 0]" 0]
    ei_greedy_example parallel_ei_greedy_example
  by (simp add: stop_check_def par_stop_check_def amax_def np_argmax_def pool_apply_only_def
      parallel_ei_greedy_get_vector_def)

text \<open>
  C5 as stated fails in floating point. For \<open>U = [[1e-310, 0.0]]\<close> the first round is
  accepted: DOF 0 is selected and its value \<open>1e-310\<close> is not zero. The quotient
  \<open>1 / 1e-310\<close> overflows to infinity, and the vector that is appended to the
  collateral basis, and returned at position 0, is \<open>[inf, nan]\<close>: its value at its own
  DOF is not 1 within any tolerance. (In exact arithmetic the round appends \<open>[1, 0]\<close>.)
\<close>

theorem basis_is_one_at_own_dof_counterexample:
  "greedy_step \<lparr>error_norm = None, atol = None, rtol = None, max_interpolation_dofs = None\<rparr>
        \<lparr>interpolation_dofs = [], collateral_basis = [], max_errs = [],
         ERR = [[1 / 10 ^ 310, 0]], max_err_ind = 0, max_err = 1 / 10 ^ 310\<rparr>
      = Inr (Inr \<lparr>interpolation_dofs = [0], collateral_basis = [[1, 0]],
                  max_errs = [1 / 10 ^ 310], ERR = [[0, 0]], max_err_ind = 0, max_err = 0\<rparr>)
   \<and> amax [1 / 10 ^ 310, 0] = Inr 0
   \<and> [1 / 10 ^ 310, 0 :: real] ! 0 \<noteq> 0
   \<and> scaled_new_vec [1 / 10 ^ 310, 0] 0 = Some [PosInf, NaN]"
  by (simp add: ei_eval scaled_new_vec_def fl_round_def fl_times_def overflow_threshold_def)

text \<open>
  C5, as the code has it. In exact arithmetic every vector of the collateral basis that
  \<open>ei_greedy\<close> returns has the value 1 at its own interpolation DOF. In double arithmetic
  the vector appended by an accepted round is the scaled vector \<open>new_vec / new_dof_value\<close>
  of the exact computation, with the value 1 at the new DOF, provided the quotient
  \<open>1 / new_dof_value\<close> does not overflow, that is, its magnitude is below
  \<open>2^1024 - 2^970\<close>; when the quotient overflows, the value at the new DOF is infinity.
\<close>

theorem basis_is_one_at_own_dof:
  "(ei_greedy p U = Inr (dofs, basis, d) \<longrightarrow> i < length basis \<longrightarrow> basis ! i ! (dofs ! i) = 1)
   \<and> (greedy_step p s = Inr (Inr s') \<longrightarrow>
        (let new_vec = ERR s ! max_err_ind s;
             new_dof = last (interpolation_dofs s');
             new_dof_value = new_vec ! new_dof
         in amax new_vec = Inr new_dof \<and> new_dof_value \<noteq> 0
            \<and> last (collateral_basis s') = scal (1 / new_dof_value) new_vec
            \<and> (if \<bar>1 / new_dof_value\<bar> < overflow_threshold
                then scaled_new_vec new_vec new_dof = Some (map Fin (last (collateral_basis s')))
                     \<and> map Fin (last (collateral_basis s')) ! new_dof = Fin 1
                else map_option (\<lambda>w. w ! new_dof) (scaled_new_vec new_vec new_dof)
                     = Some PosInf)))"
proof -
  have a: "basis ! i ! (dofs ! i) = 1"
    if "ei_greedy p U = Inr (dofs, basis, d)" "i < length basis"
    using that by (rule ei_unit_at_dof)
  have b: "let new_vec = ERR s ! max_err_ind s;
             new_dof = last (interpolation_dofs s');
             new_dof_value = new_vec ! new_dof
         in amax new_vec = Inr new_dof \<and> new_dof_value \<noteq> 0
            \<and> last (collateral_basis s') = scal (1 / new_dof_value) new_vec
            \<and> (if \<bar>1 / new_dof_value\<bar> < overflow_threshold
                then scaled_new_vec new_vec new_dof = Some (map Fin (last (collateral_basis s')))
                     \<and> map Fin (last (collateral_basis s')) ! new_dof = Fin 1
                else map_option (\<lambda>w. w ! new_dof) (scaled_new_vec new_vec new_dof)
                     = Some PosInf)"
    if e: "greedy_step p s = Inr (Inr s')"
  proof -
    let ?v = "ERR s ! max_err_ind s"
    let ?k = "last (interpolation_dofs s')"
    note g = greedy_step_scaling[OF e]
    from g have am: "amax ?v = Inr ?k" and nz: "?v ! ?k \<noteq> 0"
      and l: "last (collateral_basis s') = scal (1 / ?v ! ?k) ?v" by blast+
    from amax_less[OF am] have k: "?k < length ?v" .
    have c: "scaled_new_vec ?v ?k = Some (map Fin (last (collateral_basis s')))
             \<and> map Fin (last (collateral_basis s')) ! ?k = Fin 1"
      if "\<bar>1 / ?v ! ?k\<bar> < overflow_threshold"
    proof -
      from scaled_new_vec_exact[OF am nz that] l
      have 1: "scaled_new_vec ?v ?k = Some (map Fin (last (collateral_basis s')))" by simp
      from k nz have "scal (1 / ?v ! ?k) ?v ! ?k = 1" by (simp add: scal_nth)
      with l k have "map Fin (last (collateral_basis s')) ! ?k = Fin 1" by (simp add: scal_def)
      with 1 show ?thesis by blast
    qed
    have o: "map_option (\<lambda>w. w ! ?k) (scaled_new_vec ?v ?k) = Some PosInf"
      if "\<not> \<bar>1 / ?v ! ?k\<bar> < overflow_threshold"
    proof -
      from that have "overflow_threshold \<le> \<bar>1 / ?v ! ?k\<bar>" by simp
      from scaled_new_vec_overflow[OF k nz this] show ?thesis by simp
    qed
    from am nz l c o show ?thesis unfolding Let_def by presburger
  qed
  from a b show ?thesis by blast
qed

theorem basis_is_one_at_own_dof_witness:
  "ei_greedy \<lparr>error_norm = None, atol = None, rtol = None, max_interpolation_dofs = None\<rparr>
      [[4, 0, 3, 0], [4, 0, -3, 0], [0, 0, 0, 1]]
   = Inr ([0, 2, 3], [[1, 0, 3 / 4, 0], [0, 0, 1, 0], [0, 0, 0, 1]],
          \<lparr>errors = [5, 6, 1], triangularity_errors = [0, 0, 0]\<rparr>)
   \<and> (1 :: nat) < length [[1, 0, 3 / 4, 0], [0, 0, 1, 0], [0, 0, 0, 1 :: real]]
   \<and> [[1, 0, 3 / 4, 0], [0, 0, 1, 0], [0, 0, 0, 1 :: real]] ! 1 ! ([0, 2, 3] ! 1) = 1
   \<and> greedy_step \<lparr>error_norm = None, atol = None, rtol = None, max_interpolation_dofs = None\<rparr>
        \<lparr>interpolation_dofs = [], collateral_basis = [], max_errs = [], ERR = [[3, 4]],
         max_err_ind = 0, max_err = 5\<rparr>
      = Inr (Inr \<lparr>interpolation_dofs = [1], collateral_basis = [[3 / 4, 1]], max_errs = [5],
                  ERR = [[0, 0]], max_err_ind = 0, max_err = 0\<rparr>)
   \<and> \<bar>1 / 4 :: real\<bar> < overflow_threshold
   \<and> scaled_new_vec [3, 4] 1 = Some [Fin (3 / 4), Fin 1]"
proof -
  let ?p = "\<lparr>error_norm = None, atol = None, rtol = None, max_interpolation_dofs = None\<rparr>"
  let ?s = "\<lparr>interpolation_dofs = [], collateral_basis = [], max_errs = [], ERR = [[3, 4]],
         max_err_ind = 0, max_err = 5\<rparr>"
  let ?s' = "\<lparr>interpolation_dofs = [1], collateral_basis = [[3 / 4, 1]], max_errs = [5],
                  ERR = [[0, 0]], max_err_ind = 0, max_err = 0\<rparr>"
  have st: "greedy_step ?p ?s = Inr (Inr ?s')"
    by (simp add: ei_eval)
  have small: "\<bar>1 / 4 :: real\<bar> < overflow_threshold"
    using one_less_overflow_threshold by simp
  from basis_is_one_at_own_dof
    [of ?p "[[4, 0, 3, 0], [4, 0, -3, 0], [0, 0, 0, 1]]" "[0, 2, 3]"
        "[[1, 0, 3 / 4, 0], [0, 0, 1, 0], [0, 0, 0, 1]]"
        "\<lparr>errors = [5, 6, 1], triangularity_errors = [0, 0, 0]\<rparr>" 1 ?s ?s']
    ei_greedy_example st small
  show ?thesis by (simp add: Let_def)
qed




text \<open>
  C9. \<open>deim\<close> makes one pass over the POD basis: the \<open>i\<close>-th DOF is the place of the
  largest residual of basis vector \<open>i\<close>, so there are at most as many DOFs as POD modes
  and they are pairwise distinct. When the DOF found for a basis vector was chosen before,
  the loop stops there, and the returned basis is the POD basis cut to the number of DOFs
  chosen.
\<close>

theorem deim_single_pass:
  "deim pod solve U = Inr (dofs, basis', svals) \<Longrightarrow>
     distinct dofs
     \<and> length dofs \<le> length (fst (pod U))
     \<and> basis' = take (length dofs) (fst (pod U))
     \<and> (\<forall>i < length dofs.
           \<exists>r. deim_residual solve (fst (pod U)) (take i dofs)
                  (interpolation_matrix_of (take i (fst (pod U))) (take i dofs)) i = Inr r
               \<and> amax r = Inr (dofs ! i))
     \<and> (length dofs < length (fst (pod U)) \<longrightarrow>
           (\<exists>r d. deim_residual solve (fst (pod U)) dofs
                    (interpolation_matrix_of (take (length dofs) (fst (pod U))) dofs)
                    (length dofs) = Inr r
                  \<and> amax r = Inr d \<and> d \<in> set dofs))"
  using deim_props[of pod solve U dofs basis' svals] deim_origin[of pod solve U dofs basis' svals]
  by blast

theorem deim_single_pass_witness:
  "deim (\<lambda>U. ([[1, 0, 0], [0, 0, 0]], [1, 0])) cramer_solve [[2, 0, 0], [3, 0, 0]]
     = Inr ([0], [[1, 0, 0]], [1, 0])
   \<and> distinct [0 :: nat]
   \<and> [[1, 0, 0 :: real]] = take (length [0 :: nat]) [[1, 0, 0], [0, 0, 0]]
   \<and> deim_residual cramer_solve [[1, 0, 0], [0, 0, 0]] [] [] 0 = Inr [1, 0, 0]
   \<and> amax [1, 0, 0] = Inr 0
   \<and> length [0 :: nat] < length [[1, 0, 0], [0, 0, 0 :: real]]
   \<and> deim_residual cramer_solve [[1, 0, 0], [0, 0, 0]] [0] [[1]] 1 = Inr [0, 0, 0]
   \<and> amax [0, 0, 0] = Inr 0
   \<and> 0 \<in> set [0 :: nat]"
  using deim_single_pass
    [of "\<lambda>U. ([[1, 0, 0], [0, 0, 0]], [1, 0])" cramer_solve "[[2, 0, 0], [3, 0, 0]]"
        "[0]" "[[1, 0, 0]]" "[1, 0]"]
    deim_example
  by (simp add: deim_eval)

section \<open>Newton's method (pymor/algorithms/newton.py)\<close>

text \<open>
  The norms that \<open>newton\<close> compares are floats (\<open>fnum\<close>) and may be infinite or nan: a
  non-finite norm is one of its failure cases.
\<close>

text \<open>Python's \<open>max\<close> of a non-empty list: the first entry, replaced by each larger one.\<close>

fun py_max_from :: "fnum \<Rightarrow> fnum list \<Rightarrow> fnum" where
  "py_max_from m [] = m"
| "py_max_from m (x # xs) = py_max_from (if fl_less m x then x else m) xs"

definition py_max :: "fnum list \<Rightarrow> fnum" where
  "py_max xs = py_max_from (hd xs) (tl xs)"

subsection \<open>The operator and the vectors\<close>

text \<open>
  \<open>newton\<close> reaches the operator and the vectors only through their interfaces, which are
  parameters of the model: \<open>operator.apply\<close>, the solve with the Jacobian at the current
  iterate (\<open>None\<close> when \<open>apply_inverse\<close> raises InversionError), the difference of two
  vectors, \<open>axpy\<close>, the norm with respect to \<open>error_product\<close>, the zero vector of the source
  space, and the Armijo line search (called with the iterate, the update, the residual from
  which the gradient is formed, and the residual norm as initial value).
\<close>

record 'v newton_problem =
  operator_apply :: "'v \<Rightarrow> 'v"
  rhs :: 'v
  jacobian_apply_inverse :: "'v \<Rightarrow> 'v \<Rightarrow> 'v option"
  va_sub :: "'v \<Rightarrow> 'v \<Rightarrow> 'v"
  va_axpy :: "fnum \<Rightarrow> 'v \<Rightarrow> 'v \<Rightarrow> 'v"
  va_norm :: "'v \<Rightarrow> fnum"
  source_zeros :: 'v
  armijo :: "'v \<Rightarrow> 'v \<Rightarrow> 'v \<Rightarrow> fnum \<Rightarrow> fnum"

datatype relaxation = RelaxNumber fnum | RelaxString string

text \<open>The assertion at the head of \<open>newton\<close> admits these two error measures only.\<close>

datatype measure_choice = Residual | Update

record newton_params =
  miniter :: int
  maxiter :: int
  atol :: fnum
  rtol :: fnum
  relax :: relaxation
  stagnation_window :: nat
  stagnation_threshold :: fnum
  error_measure :: measure_choice
  return_stages :: bool
  return_residuals :: bool

text \<open>The defaults of the signature.\<close>

definition default_params :: newton_params where
  "default_params =
     \<lparr>miniter = 0, maxiter = 100, atol = Fin 0, rtol = Fin 0, relax = RelaxNumber (Fin 1),
      stagnation_window = 3, stagnation_threshold = PosInf, error_measure = Residual,
      return_stages = False, return_residuals = False\<rparr>"

datatype newton_exception = NewtonError string | LineSearchValueError

text \<open>The variables of the loop.\<close>

record 'v newton_state =
  iterate :: 'v
  residual :: 'v
  iteration :: nat
  residual_norm :: fnum
  err :: fnum
  err_scale_factor :: fnum
  solution_norms :: "fnum list"
  update_norms :: "fnum list"
  residual_norms :: "fnum list"
  stages :: "'v list"
  residuals :: "'v list"

text \<open>\<open>errs\<close> is the list of residual norms or the list of update norms, by reference.\<close>

definition errs_of :: "newton_params \<Rightarrow> 'v newton_state \<Rightarrow> fnum list" where
  "errs_of p s = (case error_measure p of Residual \<Rightarrow> residual_norms s | Update \<Rightarrow> update_norms s)"

text \<open>
  The block ``check for convergence / failure of convergence'' at the head of the loop. Each
  \<open>break\<close> carries the message the code logs before it.
\<close>

datatype stop_reason = AbsoluteLimit | TotalReduction | Stagnating

datatype check_result = Continue | Break stop_reason | FailedToConverge

definition absolute_criterion :: "newton_params \<Rightarrow> 'v newton_state \<Rightarrow> bool" where
  "absolute_criterion p s = fl_less (err s) (atol p)"

definition relative_criterion :: "newton_params \<Rightarrow> 'v newton_state \<Rightarrow> bool" where
  "relative_criterion p s = fl_less (err s) (fl_mult (rtol p) (err_scale_factor s))"

definition stagnation_criterion :: "newton_params \<Rightarrow> 'v newton_state \<Rightarrow> bool" where
  "stagnation_criterion p s =
     (stagnation_window p + 1 \<le> length (errs_of p s)
      \<and> fl_less (fl_mult (stagnation_threshold p)
                    (py_max (drop (length (errs_of p s) - (stagnation_window p + 1))
                               (errs_of p s))))
                 (err s))"

definition convergence_check :: "newton_params \<Rightarrow> 'v newton_state \<Rightarrow> check_result" where
  "convergence_check p s =
     (if miniter p \<le> int (iteration s) then
        if absolute_criterion p s then Break AbsoluteLimit
        else if relative_criterion p s then Break TotalReduction
        else if stagnation_criterion p s then Break Stagnating
        else if maxiter p \<le> int (iteration s) then FailedToConverge
        else Continue
      else Continue)"

text \<open>``compute step size''.\<close>

definition step_size_of ::
    "'v newton_problem \<Rightarrow> newton_params \<Rightarrow> 'v newton_state \<Rightarrow> 'v \<Rightarrow> newton_exception + fnum" where
  "step_size_of A p s update =
     (case relax p of
        RelaxNumber r \<Rightarrow> Inr r
      | RelaxString m \<Rightarrow>
          if m = ''armijo'' then Inr (armijo A (iterate s) update (residual s) (residual_norm s))
          else Inl LineSearchValueError)"

text \<open>The rest of a round: history, update, step, new residual and norms, blow-up test.\<close>

definition newton_update ::
    "'v newton_problem \<Rightarrow> newton_params \<Rightarrow> 'v newton_state \<Rightarrow> newton_exception + 'v newton_state" where
  "newton_update A p s =
     (let iteration' = iteration s + 1;
          stages' = (if 0 < iteration' \<and> return_stages p then stages s @ [iterate s] else stages s);
          residuals' = (if return_residuals p then residuals s @ [residual s] else residuals s)
      in case jacobian_apply_inverse A (iterate s) (residual s) of
           None \<Rightarrow> Inl (NewtonError ''Could not invert jacobian'')
         | Some update \<Rightarrow>
             (case step_size_of A p s update of
                Inl e \<Rightarrow> Inl e
              | Inr step_size \<Rightarrow>
                  (let U' = va_axpy A step_size update (iterate s);
                       residual' = va_sub A (rhs A) (operator_apply A U');
                       solution_norm = va_norm A U';
                       update_norm = fl_mult (va_norm A update) step_size;
                       residual_norm' = va_norm A residual'
                   in if \<not> isfinite residual_norm' \<or> \<not> isfinite solution_norm
                      then Inl (NewtonError ''Failed to converge'')
                      else Inr \<lparr>iterate = U', residual = residual', iteration = iteration',
                                residual_norm = residual_norm',
                                err = (case error_measure p of
                                         Residual \<Rightarrow> residual_norm' | Update \<Rightarrow> update_norm),
                                err_scale_factor =
                                  (case error_measure p of
                                     Residual \<Rightarrow> err_scale_factor s | Update \<Rightarrow> solution_norm),
                                solution_norms = solution_norms s @ [solution_norm],
                                update_norms = update_norms s @ [update_norm],
                                residual_norms = residual_norms s @ [residual_norm'],
                                stages = stages', residuals = residuals'\<rparr>)))"

text \<open>\<open>while True\<close>: the result is the state at the \<open>break\<close>, or the exception raised.\<close>

function newton_loop ::
    "'v newton_problem \<Rightarrow> newton_params \<Rightarrow> 'v newton_state
       \<Rightarrow> newton_exception + 'v newton_state \<times> stop_reason" where
  "newton_loop A p s =
     (case convergence_check p s of
        Break reason \<Rightarrow> Inr (s, reason)
      | FailedToConverge \<Rightarrow> Inl (NewtonError ''Failed to converge'')
      | Continue \<Rightarrow>
          (case newton_update A p s of
             Inl e \<Rightarrow> Inl e
           | Inr s' \<Rightarrow> newton_loop A p s'))"
  by pat_completeness auto

text \<open>The state before the loop.\<close>

definition initial_state :: "'v newton_problem \<Rightarrow> newton_params \<Rightarrow> 'v option \<Rightarrow> 'v newton_state" where
  "initial_state A p initial_guess =
     (let U0 = (case initial_guess of None \<Rightarrow> source_zeros A | Some g \<Rightarrow> g);
          residual0 = va_sub A (rhs A) (operator_apply A U0);
          solution_norm = va_norm A U0;
          residual_norm0 = va_norm A residual0
      in \<lparr>iterate = U0, residual = residual0, iteration = 0,
          residual_norm = residual_norm0,
          err = (case error_measure p of Residual \<Rightarrow> residual_norm0 | Update \<Rightarrow> solution_norm),
          err_scale_factor =
            (case error_measure p of Residual \<Rightarrow> residual_norm0 | Update \<Rightarrow> solution_norm),
          solution_norms = [solution_norm], update_norms = [solution_norm],
          residual_norms = [residual_norm0], stages = [], residuals = []\<rparr>)"

text \<open>The dict \<open>data\<close>; \<open>stages\<close> and \<open>residuals\<close> are present only when asked for.\<close>

record 'v newton_data =
  data_solution_norms :: "fnum list"
  data_update_norms :: "fnum list"
  data_residual_norms :: "fnum list"
  data_stages :: "'v list option"
  data_residuals :: "'v list option"

definition data_of :: "newton_params \<Rightarrow> 'v newton_state \<Rightarrow> 'v newton_data" where
  "data_of p s =
     \<lparr>data_solution_norms = solution_norms s, data_update_norms = update_norms s,
      data_residual_norms = residual_norms s,
      data_stages = (if return_stages p then Some (stages s) else None),
      data_residuals = (if return_residuals p then Some (residuals s) else None)\<rparr>"

text \<open>
  \<open>newton\<close>: the solution and \<open>data\<close>, together with the logged reason of the stop, or the
  exception.
\<close>

definition newton ::
    "'v newton_problem \<Rightarrow> newton_params \<Rightarrow> 'v option
       \<Rightarrow> newton_exception + 'v \<times> 'v newton_data \<times> stop_reason" where
  "newton A p initial_guess =
     (case newton_loop A p (initial_state A p initial_guess) of
        Inl e \<Rightarrow> Inl e
      | Inr (s, reason) \<Rightarrow> Inr (iterate s, data_of p s, reason))"

text \<open>
  The states a run passes through: from a state whose check lets the loop go on and whose
  round succeeds, the run reaches the state after the round.
\<close>

inductive reaches :: "'v newton_problem \<Rightarrow> newton_params \<Rightarrow> 'v newton_state \<Rightarrow> 'v newton_state \<Rightarrow> bool"
  for A p s where
  start: "reaches A p s s"
| round: "reaches A p s s' \<Longrightarrow> convergence_check p s' = Continue
            \<Longrightarrow> newton_update A p s' = Inr s'' \<Longrightarrow> reaches A p s s''"

text \<open>
  The three ways in which a run can fail at a state: the failed check, the failed solve, and
  non-finite norms after the update.
\<close>

definition maxiter_failure :: "newton_params \<Rightarrow> 'v newton_state \<Rightarrow> bool" where
  "maxiter_failure p s =
     (miniter p \<le> int (iteration s) \<and> maxiter p \<le> int (iteration s)
      \<and> \<not> absolute_criterion p s \<and> \<not> relative_criterion p s \<and> \<not> stagnation_criterion p s)"

definition inversion_failure :: "'v newton_problem \<Rightarrow> newton_params \<Rightarrow> 'v newton_state \<Rightarrow> bool" where
  "inversion_failure A p s =
     (convergence_check p s = Continue
      \<and> jacobian_apply_inverse A (iterate s) (residual s) = None)"

definition blow_up :: "'v newton_problem \<Rightarrow> newton_params \<Rightarrow> 'v newton_state \<Rightarrow> bool" where
  "blow_up A p s =
     (convergence_check p s = Continue
      \<and> (case jacobian_apply_inverse A (iterate s) (residual s) of
            None \<Rightarrow> False
          | Some update \<Rightarrow>
              (case step_size_of A p s update of
                 Inl e \<Rightarrow> False
               | Inr step_size \<Rightarrow>
                   (let U' = va_axpy A step_size update (iterate s) in
                    \<not> isfinite (va_norm A (va_sub A (rhs A) (operator_apply A U')))
                    \<or> \<not> isfinite (va_norm A U')))))"


text \<open>
  A scalar equation \<open>a * u = b\<close> as an instance of the interfaces, with a given norm: the
  Jacobian is \<open>a\<close>, and the solve fails when \<open>a = 0\<close>.
\<close>

definition scalar_problem :: "real \<Rightarrow> real \<Rightarrow> (real \<Rightarrow> fnum) \<Rightarrow> real newton_problem" where
  "scalar_problem a b nrm =
     \<lparr>operator_apply = (\<lambda>u. a * u), rhs = b,
      jacobian_apply_inverse = (\<lambda>u r. if a = 0 then None else Some (r / a)),
      va_sub = (\<lambda>x y. x - y),
      va_axpy = (\<lambda>c x y. case c of Fin c' \<Rightarrow> y + c' * x | _ \<Rightarrow> y),
      va_norm = nrm, source_zeros = 0,
      armijo = (\<lambda>u w v n. Fin 1)\<rparr>"

definition abs_norm :: "real \<Rightarrow> fnum" where
  "abs_norm u = Fin \<bar>u\<bar>"

text \<open>
  The Euclidean norm as floating point computes it: the square of a large entry overflows
  to infinity before the root is taken.
\<close>

definition overflowing_norm :: "real \<Rightarrow> fnum" where
  "overflowing_norm u = (if 10 ^ 308 < u * u then PosInf else Fin \<bar>u\<bar>)"


subsection \<open>Termination of the Newton loop\<close>

lemma newton_update_iteration:
  "newton_update A p s = Inr s' \<Longrightarrow> iteration s' = Suc (iteration s)"
  by (auto simp: newton_update_def Let_def split: option.splits sum.splits if_splits)

lemma check_Continue:
  "convergence_check p s = Continue \<Longrightarrow>
     int (iteration s) < miniter p \<or> int (iteration s) < maxiter p"
  by (auto simp: convergence_check_def split: if_splits)

termination newton_loop
proof (relation "measure (\<lambda>(A, p, s). nat (max (miniter p) (maxiter p) - int (iteration s)))")
  show "wf (measure (\<lambda>(A, p, s). nat (max (miniter p) (maxiter p) - int (iteration s))))"
    by simp
next
  fix A :: "'a newton_problem" and p s s'
  assume "convergence_check p s = Continue" "newton_update A p s = Inr s'"
  then show "((A, p, s'), (A, p, s))
      \<in> measure (\<lambda>(A, p, s). nat (max (miniter p) (maxiter p) - int (iteration s)))"
    using newton_update_iteration[of A p s s'] check_Continue[of p s] by auto
qed

declare newton_loop.simps [simp del]

lemma newton_loop_Continue:
  "convergence_check p s = Continue \<Longrightarrow> newton_update A p s = Inr s'
     \<Longrightarrow> newton_loop A p s = newton_loop A p s'"
  by (simp add: newton_loop.simps[of A p s])

lemma newton_loop_Break:
  "convergence_check p s = Break r \<Longrightarrow> newton_loop A p s = Inr (s, r)"
  by (simp add: newton_loop.simps[of A p s])

lemma newton_loop_Failed:
  "convergence_check p s = FailedToConverge
     \<Longrightarrow> newton_loop A p s = Inl (NewtonError ''Failed to converge'')"
  by (simp add: newton_loop.simps[of A p s])

lemma newton_loop_raise:
  "convergence_check p s = Continue \<Longrightarrow> newton_update A p s = Inl e
     \<Longrightarrow> newton_loop A p s = Inl e"
  by (simp add: newton_loop.simps[of A p s])

lemma reaches_same_result:
  "reaches A p s s' \<Longrightarrow> newton_loop A p s = newton_loop A p s'"
  by (induction rule: reaches.induct) (simp_all add: newton_loop_Continue)

text \<open>Every run ends in a state it reaches, by a stop, a failed check or a failed round.\<close>

lemma newton_loop_ends:
  "\<exists>s'. reaches A p s s'
     \<and> ((\<exists>r. convergence_check p s' = Break r \<and> newton_loop A p s = Inr (s', r))
        \<or> (convergence_check p s' = FailedToConverge
             \<and> newton_loop A p s = Inl (NewtonError ''Failed to converge''))
        \<or> (\<exists>e. convergence_check p s' = Continue \<and> newton_update A p s' = Inl e
             \<and> newton_loop A p s = Inl e))"
proof (induction A p s rule: newton_loop.induct)
  case (1 A p s)
  show ?case
  proof (cases "convergence_check p s")
    case Continue
    show ?thesis
    proof (cases "newton_update A p s")
      case (Inl e)
      with Continue newton_loop_raise[of p s A e] reaches.start[of A p s]
      show ?thesis by blast
    next
      case (Inr s1)
      from "1.IH"[OF Continue Inr] obtain s' where
        r: "reaches A p s1 s'"
        and e: "(\<exists>r. convergence_check p s' = Break r \<and> newton_loop A p s1 = Inr (s', r))
        \<or> (convergence_check p s' = FailedToConverge
             \<and> newton_loop A p s1 = Inl (NewtonError ''Failed to converge''))
        \<or> (\<exists>e. convergence_check p s' = Continue \<and> newton_update A p s' = Inl e
             \<and> newton_loop A p s1 = Inl e)"
        by blast
      have first: "reaches A p s s1"
        using reaches.round[OF reaches.start Continue Inr] .
      have "reaches A p s s'"
        using r
      proof (induction rule: reaches.induct)
        case start
        then show ?case by (rule first)
      next
        case (round s' s'')
        then show ?case by (blast intro: reaches.round)
      qed
      moreover have "newton_loop A p s = newton_loop A p s1"
        using Continue Inr by (rule newton_loop_Continue)
      ultimately show ?thesis using e by auto
    qed
  next
    case (Break r)
    with newton_loop_Break[of p s r A] reaches.start[of A p s] show ?thesis by blast
  next
    case FailedToConverge
    with newton_loop_Failed[of p s A] reaches.start[of A p s] show ?thesis by blast
  qed
qed

section \<open>Properties of the Newton loop\<close>

subsection \<open>When NewtonError is raised\<close>

lemma check_Failed_iff: "convergence_check p s = FailedToConverge \<longleftrightarrow> maxiter_failure p s"
  by (auto simp: convergence_check_def maxiter_failure_def)

lemma step_size_exception:
  "step_size_of A p s update = Inl e \<Longrightarrow> e = LineSearchValueError"
  by (auto simp: step_size_of_def split: relaxation.splits if_splits)

lemma update_NewtonError_iff:
  "convergence_check p s = Continue \<Longrightarrow>
     (\<exists>m. newton_update A p s = Inl (NewtonError m)) \<longleftrightarrow> inversion_failure A p s \<or> blow_up A p s"
  by (auto simp: newton_update_def inversion_failure_def blow_up_def Let_def
      split: option.splits sum.splits if_splits dest: step_size_exception)

lemma update_other_exception:
  "newton_update A p s = Inl LineSearchValueError \<Longrightarrow>
     \<exists>m. relax p = RelaxString m \<and> m \<noteq> ''armijo''"
  by (auto simp: newton_update_def step_size_of_def Let_def
      split: option.splits sum.splits if_splits relaxation.splits)

lemma newton_Inl_iff: "newton A p g = Inl e \<longleftrightarrow> newton_loop A p (initial_state A p g) = Inl e"
  by (auto simp: newton_def split: sum.splits)

lemma newton_error_iff:
  "(\<exists>m. newton A p g = Inl (NewtonError m))
     \<longleftrightarrow> (\<exists>s. reaches A p (initial_state A p g) s
              \<and> (maxiter_failure p s \<or> inversion_failure A p s \<or> blow_up A p s))"
proof
  assume "\<exists>m. newton A p g = Inl (NewtonError m)"
  then obtain m where m: "newton_loop A p (initial_state A p g) = Inl (NewtonError m)"
    by (auto simp: newton_Inl_iff)
  from newton_loop_ends[of A p "initial_state A p g"] obtain s where
    r: "reaches A p (initial_state A p g) s"
    and e: "(\<exists>r. convergence_check p s = Break r
                \<and> newton_loop A p (initial_state A p g) = Inr (s, r))
        \<or> (convergence_check p s = FailedToConverge
             \<and> newton_loop A p (initial_state A p g) = Inl (NewtonError ''Failed to converge''))
        \<or> (\<exists>e. convergence_check p s = Continue \<and> newton_update A p s = Inl e
             \<and> newton_loop A p (initial_state A p g) = Inl e)"
    by blast
  from e m have "maxiter_failure p s \<or> inversion_failure A p s \<or> blow_up A p s"
    using check_Failed_iff[of p s] update_NewtonError_iff[of p s A] by auto
  with r show "\<exists>s. reaches A p (initial_state A p g) s
              \<and> (maxiter_failure p s \<or> inversion_failure A p s \<or> blow_up A p s)" by blast
next
  assume "\<exists>s. reaches A p (initial_state A p g) s
              \<and> (maxiter_failure p s \<or> inversion_failure A p s \<or> blow_up A p s)"
  then obtain s where r: "reaches A p (initial_state A p g) s"
    and f: "maxiter_failure p s \<or> inversion_failure A p s \<or> blow_up A p s" by blast
  have same: "newton_loop A p (initial_state A p g) = newton_loop A p s"
    using r by (rule reaches_same_result)
  from f have "\<exists>m. newton_loop A p s = Inl (NewtonError m)"
  proof (elim disjE)
    assume "maxiter_failure p s"
    then show ?thesis using check_Failed_iff[of p s] newton_loop_Failed[of p s A] by blast
  next
    assume i: "inversion_failure A p s"
    then have c: "convergence_check p s = Continue" by (simp add: inversion_failure_def)
    with i update_NewtonError_iff[of p s A] obtain m where
      "newton_update A p s = Inl (NewtonError m)" by blast
    with c show ?thesis using newton_loop_raise[of p s A] by blast
  next
    assume b: "blow_up A p s"
    then have c: "convergence_check p s = Continue" by (simp add: blow_up_def)
    with b update_NewtonError_iff[of p s A] obtain m where
      "newton_update A p s = Inl (NewtonError m)" by blast
    with c show ?thesis using newton_loop_raise[of p s A] by blast
  qed
  with same show "\<exists>m. newton A p g = Inl (NewtonError m)"
    by (auto simp: newton_Inl_iff)
qed

lemma newton_returns_or_raises:
  assumes "\<forall>m. relax p = RelaxString m \<longrightarrow> m = ''armijo''"
  shows "(\<exists>res. newton A p g = Inr res) \<or> (\<exists>m. newton A p g = Inl (NewtonError m))"
proof (cases "newton A p g")
  case (Inl e)
  show ?thesis
  proof (cases e)
    case (NewtonError m)
    with Inl show ?thesis by blast
  next
    case LineSearchValueError
    with Inl have l: "newton_loop A p (initial_state A p g) = Inl LineSearchValueError"
      by (simp add: newton_Inl_iff)
    from newton_loop_ends[of A p "initial_state A p g"] l obtain s where
      "newton_update A p s = Inl LineSearchValueError" by auto
    from update_other_exception[OF this] assms show ?thesis by auto
  qed
next
  case (Inr res)
  then show ?thesis by blast
qed

subsection \<open>Tolerances zero, threshold infinite\<close>
















subsection \<open>Worked runs\<close>

lemmas newton_eval = newton_def newton_loop.simps convergence_check_def absolute_criterion_def
  relative_criterion_def stagnation_criterion_def newton_update_def step_size_of_def
  initial_state_def data_of_def errs_of_def py_max_def scalar_problem_def default_params_def
  abs_norm_def overflowing_norm_def Let_def

lemma linear_run:
  "newton (scalar_problem 2 4 abs_norm) (default_params\<lparr>maxiter := 2\<rparr>) None
     = Inl (NewtonError ''Failed to converge'')"
  by (simp add: newton_eval)

lemma singular_run:
  "newton (scalar_problem 0 1 abs_norm) (default_params\<lparr>miniter := 5\<rparr>) None
     = Inl (NewtonError ''Could not invert jacobian'')"
  by (simp add: newton_eval)

lemma overflow_run:
  "newton (scalar_problem 1 0 overflowing_norm) (default_params\<lparr>atol := Fin (1 / 10 ^ 8)\<rparr>)
      (Some (10 ^ 200))
     = Inr (0, \<lparr>data_solution_norms = [PosInf, Fin 0], data_update_norms = [PosInf, PosInf],
               data_residual_norms = [PosInf, Fin 0], data_stages = None,
               data_residuals = None\<rparr>, AbsoluteLimit)"
  by (simp add: newton_eval)

lemma converging_run:
  "newton (scalar_problem 2 4 abs_norm) (default_params\<lparr>atol := Fin (1 / 10 ^ 8)\<rparr>) None
     = Inr (2, \<lparr>data_solution_norms = [Fin 0, Fin 2], data_update_norms = [Fin 0, Fin 2],
               data_residual_norms = [Fin 4, Fin 0], data_stages = None,
               data_residuals = None\<rparr>, AbsoluteLimit)"
  by (simp add: newton_eval)

subsection \<open>Where a run stops\<close>

lemma check_below_miniter: "int (iteration s) < miniter p \<Longrightarrow> convergence_check p s = Continue"
  by (simp add: convergence_check_def)

lemma check_in_order:
  "miniter p \<le> int (iteration s) \<Longrightarrow>
     convergence_check p s =
       (if absolute_criterion p s then Break AbsoluteLimit
        else if relative_criterion p s then Break TotalReduction
        else if stagnation_criterion p s then Break Stagnating
        else if maxiter p \<le> int (iteration s) then FailedToConverge
        else Continue)"
  by (simp add: convergence_check_def)

lemma check_Break:
  assumes "convergence_check p s = Break reason"
  shows "miniter p \<le> int (iteration s)
    \<and> (case reason of
          AbsoluteLimit \<Rightarrow> absolute_criterion p s
        | TotalReduction \<Rightarrow> \<not> absolute_criterion p s \<and> relative_criterion p s
        | Stagnating \<Rightarrow> \<not> absolute_criterion p s \<and> \<not> relative_criterion p s
                          \<and> stagnation_criterion p s)"
  using assms by (cases reason) (auto simp: convergence_check_def split: if_splits)

lemma newton_Inr:
  assumes "newton A p g = Inr (u, d, reason)"
  shows "\<exists>s. reaches A p (initial_state A p g) s \<and> convergence_check p s = Break reason
             \<and> u = iterate s \<and> d = data_of p s"
proof -
  from assms obtain s where l: "newton_loop A p (initial_state A p g) = Inr (s, reason)"
    and r: "u = iterate s" "d = data_of p s"
    by (auto simp: newton_def split: sum.splits)
  from newton_loop_ends[of A p "initial_state A p g"] l
  have "reaches A p (initial_state A p g) s \<and> convergence_check p s = Break reason"
    by auto
  with r show ?thesis by blast
qed

lemma update_exceptions:
  "newton_update A p s = Inl e \<Longrightarrow>
     e = NewtonError ''Could not invert jacobian'' \<or> e = NewtonError ''Failed to converge''
     \<or> e = LineSearchValueError"
  by (auto simp: newton_update_def Let_def split: option.splits sum.splits if_splits
      dest: step_size_exception)

section \<open>The claims about Newton\<close>

text \<open>
  C7, as the code has it. \<open>newton\<close> raises NewtonError exactly when its run reaches (1) a
  check with \<open>iteration >= miniter\<close> and \<open>iteration >= maxiter\<close> at which none of the three
  criteria fires, or (2) a round in which the solve with the Jacobian fails, or (3) a round
  after whose update the new residual norm or the new solution norm is not finite; the norms
  computed before the loop are not tested. When \<open>relax\<close> is a number or the string armijo,
  every other run returns.
\<close>

theorem newton_error_cases:
  "((\<exists>m. newton A p g = Inl (NewtonError m))
      \<longleftrightarrow> (\<exists>s. reaches A p (initial_state A p g) s
               \<and> (maxiter_failure p s \<or> inversion_failure A p s \<or> blow_up A p s)))
   \<and> ((\<forall>m. relax p = RelaxString m \<longrightarrow> m = ''armijo'')
        \<longrightarrow> (\<exists>res. newton A p g = Inr res) \<or> (\<exists>m. newton A p g = Inl (NewtonError m)))"
  using newton_error_iff[of A p g] newton_returns_or_raises[of p A g] by blast

theorem newton_error_cases_witness:
  "newton (scalar_problem 0 1 abs_norm) (default_params\<lparr>miniter := 5\<rparr>) None
     = Inl (NewtonError ''Could not invert jacobian'')
   \<and> inversion_failure (scalar_problem 0 1 abs_norm) (default_params\<lparr>miniter := 5\<rparr>)
       (initial_state (scalar_problem 0 1 abs_norm) (default_params\<lparr>miniter := 5\<rparr>) None)
   \<and> relax (default_params\<lparr>miniter := 5\<rparr>) = RelaxNumber (Fin 1)"
proof -
  let ?A = "scalar_problem 0 1 abs_norm"
  let ?p = "default_params\<lparr>miniter := 5\<rparr>"
  have i: "inversion_failure ?A ?p (initial_state ?A ?p None)"
    by (simp add: inversion_failure_def newton_eval)
  with reaches.start[of ?A ?p "initial_state ?A ?p None"] newton_error_cases[of ?A ?p None]
  have "\<exists>m. newton ?A ?p None = Inl (NewtonError m)" by blast
  with singular_run i show ?thesis by (simp add: default_params_def)
qed

text \<open>
  C7 as stated fails. The identity operator with right-hand side 0, started at \<open>10^200\<close>:
  the norms of the initial iterate and of the initial residual overflow to infinity, the
  first update leads to the solution 0, and \<open>newton\<close> returns it. Non-finite solution and
  residual norms have occurred, and they stand in the returned histories.
\<close>

theorem newton_error_cases_counterexample:
  "newton (scalar_problem 1 0 overflowing_norm) (default_params\<lparr>atol := Fin (1 / 10 ^ 8)\<rparr>)
      (Some (10 ^ 200))
     = Inr (0, \<lparr>data_solution_norms = [PosInf, Fin 0], data_update_norms = [PosInf, PosInf],
               data_residual_norms = [PosInf, Fin 0], data_stages = None,
               data_residuals = None\<rparr>, AbsoluteLimit)
   \<and> \<not> isfinite (hd [PosInf, Fin 0])"
  using overflow_run by simp

text \<open>
  C8, as the code has it. The termination criteria are evaluated only once
  \<open>iteration >= miniter\<close>, in the order absolute limit, total reduction, stagnation, and then
  the \<open>maxiter\<close> failure; a run that returns has stopped at such a check, by the first
  criterion that holds there. While \<open>iteration < miniter\<close> there is no convergence exit and no
  \<open>maxiter\<close> failure: the loop is left only by an exception of the round, which is the failed
  solve with the Jacobian, the non-finite norm, or the unknown line search.
\<close>

theorem criteria_after_miniter_in_order:
  "(int (iteration s) < miniter p \<longrightarrow>
      convergence_check p s = Continue
      \<and> newton_loop A p s
         = (case newton_update A p s of Inl e \<Rightarrow> Inl e | Inr s' \<Rightarrow> newton_loop A p s')
      \<and> (\<forall>e. newton_update A p s = Inl e \<longrightarrow>
            e = NewtonError ''Could not invert jacobian''
            \<or> e = NewtonError ''Failed to converge'' \<or> e = LineSearchValueError))
   \<and> (miniter p \<le> int (iteration s) \<longrightarrow>
        convergence_check p s =
          (if absolute_criterion p s then Break AbsoluteLimit
           else if relative_criterion p s then Break TotalReduction
           else if stagnation_criterion p s then Break Stagnating
           else if maxiter p \<le> int (iteration s) then FailedToConverge
           else Continue))
   \<and> (newton A p g = Inr (u, d, reason) \<longrightarrow>
        (\<exists>s'. reaches A p (initial_state A p g) s' \<and> u = iterate s' \<and> d = data_of p s'
              \<and> miniter p \<le> int (iteration s')
              \<and> (case reason of
                    AbsoluteLimit \<Rightarrow> absolute_criterion p s'
                  | TotalReduction \<Rightarrow> \<not> absolute_criterion p s' \<and> relative_criterion p s'
                  | Stagnating \<Rightarrow> \<not> absolute_criterion p s' \<and> \<not> relative_criterion p s'
                                    \<and> stagnation_criterion p s')))"
proof (intro conjI impI allI)
  assume b: "int (iteration s) < miniter p"
  then show c: "convergence_check p s = Continue" by (rule check_below_miniter)
  show "newton_loop A p s
         = (case newton_update A p s of Inl e \<Rightarrow> Inl e | Inr s' \<Rightarrow> newton_loop A p s')"
    using check_below_miniter[OF b] by (simp add: newton_loop.simps[of A p s])
next
  fix e assume "newton_update A p s = Inl e"
  then show "e = NewtonError ''Could not invert jacobian''
            \<or> e = NewtonError ''Failed to converge'' \<or> e = LineSearchValueError"
    by (rule update_exceptions)
next
  assume "miniter p \<le> int (iteration s)"
  then show "convergence_check p s =
          (if absolute_criterion p s then Break AbsoluteLimit
           else if relative_criterion p s then Break TotalReduction
           else if stagnation_criterion p s then Break Stagnating
           else if maxiter p \<le> int (iteration s) then FailedToConverge
           else Continue)"
    by (rule check_in_order)
next
  assume "newton A p g = Inr (u, d, reason)"
  from newton_Inr[OF this] obtain s' where
    "reaches A p (initial_state A p g) s'" "convergence_check p s' = Break reason"
    "u = iterate s'" "d = data_of p s'" by blast
  with check_Break[of p s' reason]
  show "\<exists>s'. reaches A p (initial_state A p g) s' \<and> u = iterate s' \<and> d = data_of p s'
              \<and> miniter p \<le> int (iteration s')
              \<and> (case reason of
                    AbsoluteLimit \<Rightarrow> absolute_criterion p s'
                  | TotalReduction \<Rightarrow> \<not> absolute_criterion p s' \<and> relative_criterion p s'
                  | Stagnating \<Rightarrow> \<not> absolute_criterion p s' \<and> \<not> relative_criterion p s'
                                    \<and> stagnation_criterion p s')"
    by blast
qed

theorem criteria_after_miniter_in_order_witness:
  "int (iteration (initial_state (scalar_problem 0 1 abs_norm)
                     (default_params\<lparr>miniter := 5\<rparr>) None))
     < miniter (default_params\<lparr>miniter := 5\<rparr>)
   \<and> convergence_check (default_params\<lparr>miniter := 5\<rparr>)
        (initial_state (scalar_problem 0 1 abs_norm) (default_params\<lparr>miniter := 5\<rparr>) None)
       = Continue
   \<and> newton_update (scalar_problem 0 1 abs_norm) (default_params\<lparr>miniter := 5\<rparr>)
        (initial_state (scalar_problem 0 1 abs_norm) (default_params\<lparr>miniter := 5\<rparr>) None)
       = Inl (NewtonError ''Could not invert jacobian'')
   \<and> miniter (default_params\<lparr>atol := Fin 5\<rparr>)
       \<le> int (iteration (initial_state (scalar_problem 2 4 abs_norm)
                           (default_params\<lparr>atol := Fin 5\<rparr>) None))
   \<and> convergence_check (default_params\<lparr>atol := Fin 5\<rparr>)
        (initial_state (scalar_problem 2 4 abs_norm) (default_params\<lparr>atol := Fin 5\<rparr>) None)
       = Break AbsoluteLimit
   \<and> newton (scalar_problem 2 4 abs_norm) (default_params\<lparr>atol := Fin (1 / 10 ^ 8)\<rparr>) None
     = Inr (2, \<lparr>data_solution_norms = [Fin 0, Fin 2], data_update_norms = [Fin 0, Fin 2],
               data_residual_norms = [Fin 4, Fin 0], data_stages = None,
               data_residuals = None\<rparr>, AbsoluteLimit)"
  using criteria_after_miniter_in_order
    [of "initial_state (scalar_problem 0 1 abs_norm) (default_params\<lparr>miniter := 5\<rparr>) None"
        "default_params\<lparr>miniter := 5\<rparr>" "scalar_problem 0 1 abs_norm"]
    criteria_after_miniter_in_order
    [of "initial_state (scalar_problem 2 4 abs_norm) (default_params\<lparr>atol := Fin 5\<rparr>) None"
        "default_params\<lparr>atol := Fin 5\<rparr>"]
    converging_run
  by (simp add: newton_eval)

text \<open>
  C8 as stated fails. With \<open>miniter = 5\<close> and a singular Jacobian, \<open>newton\<close> fails in its
  first round, at \<open>iteration < miniter\<close>, and no norm is non-finite: the exception is the
  failed solve.
\<close>

theorem criteria_after_miniter_counterexample:
  "newton (scalar_problem 0 1 abs_norm) (default_params\<lparr>miniter := 5\<rparr>) None
     = Inl (NewtonError ''Could not invert jacobian'')
   \<and> int (iteration (initial_state (scalar_problem 0 1 abs_norm)
                       (default_params\<lparr>miniter := 5\<rparr>) None))
       < miniter (default_params\<lparr>miniter := 5\<rparr>)
   \<and> newton_update (scalar_problem 0 1 abs_norm) (default_params\<lparr>miniter := 5\<rparr>)
        (initial_state (scalar_problem 0 1 abs_norm) (default_params\<lparr>miniter := 5\<rparr>) None)
       = Inl (NewtonError ''Could not invert jacobian'')
   \<and> \<not> blow_up (scalar_problem 0 1 abs_norm) (default_params\<lparr>miniter := 5\<rparr>)
          (initial_state (scalar_problem 0 1 abs_norm) (default_params\<lparr>miniter := 5\<rparr>) None)"
  using singular_run by (simp add: newton_eval blow_up_def)




end
